theory Spec2Isabelle
  imports Complex_Main "HOL-Library.Log_Nat"
begin

section \<open>Data model\<close>

text \<open>
  The checks of \<^verbatim>\<open>nwbinspector/checks/general.py\<close> probe an arbitrary object with
  \<^verbatim>\<open>hasattr\<close>. An attribute is therefore absent, present with the value
  \<^verbatim>\<open>None\<close>, or present with a string. Strings are lists of characters; the only
  case mapping that matters for the checks is the one of the ASCII letters, since no
  other character lower-cases to a letter of one of the placeholders.
\<close>

datatype attr = Absent | PyNone | Str string

record node =
  name :: attr
  description :: attr

datatype error = TypeError | ValueError | OverflowError

datatype Severity = NO_SEVERITY | LOW | HIGH

datatype Importance = BEST_PRACTICE_SUGGESTION | BEST_PRACTICE_VIOLATION | CRITICAL

text \<open>
  Modelled from the spec: the class \<^verbatim>\<open>InspectorMessage\<close> of
  \<^verbatim>\<open>nwbinspector/register_checks.py\<close>, of which the fields that a check body and its
  registration determine are kept: the text, the severity (\<^verbatim>\<open>NO_SEVERITY\<close> unless
  the body sets it) and the importance (unset until the registration fills it in).
\<close>

record InspectorMessage =
  message :: string
  severity :: Severity
  importance :: "Importance option"

definition InspectorMessage :: "string \<Rightarrow> InspectorMessage" where
  "InspectorMessage msg = \<lparr>message = msg, severity = NO_SEVERITY, importance = None\<rparr>"

text \<open>
  Modelled from the spec: the decorator \<^verbatim>\<open>register_check\<close> of
  \<^verbatim>\<open>nwbinspector/register_checks.py\<close>. A finding of the body inherits the importance
  declared at registration; no finding stays no finding and a fault of the body stays a
  fault. The second argument is the applicable type (\<^verbatim>\<open>None\<close> is "any object").
\<close>

definition register_check ::
  "Importance \<Rightarrow> string option \<Rightarrow> ('o \<Rightarrow> error + InspectorMessage option)
     \<Rightarrow> 'o \<Rightarrow> error + InspectorMessage option" where
  "register_check imp neurodata_type check_function obj =
     (case check_function obj of
        Inl e \<Rightarrow> Inl e
      | Inr None \<Rightarrow> Inr None
      | Inr (Some m) \<Rightarrow> Inr (Some (m\<lparr>importance := Some imp\<rparr>)))"

section \<open>String primitives of the host language\<close>

text \<open>\<^verbatim>\<open>x in s\<close> on two strings: \<^verbatim>\<open>x\<close> occurs in \<^verbatim>\<open>s\<close> as a contiguous run.\<close>

fun str_in :: "string \<Rightarrow> string \<Rightarrow> bool" where
  "str_in x [] = (x = [])"
| "str_in x (c # cs) = (take (length x) (c # cs) = x \<or> str_in x cs)"

text \<open>\<^verbatim>\<open>s.strip(chars)\<close>: drop the leading and the trailing characters that are in \<^verbatim>\<open>chars\<close>.\<close>

definition strip :: "string \<Rightarrow> string \<Rightarrow> string" where
  "strip chars s =
     rev (dropWhile (\<lambda>c. c \<in> set chars) (rev (dropWhile (\<lambda>c. c \<in> set chars) s)))"

definition lower_char :: "char \<Rightarrow> char" where
  "lower_char c =
     (let n = (of_char c :: nat) in if 65 \<le> n \<and> n \<le> 90 then char_of (n + 32) else c)"

definition lower :: "string \<Rightarrow> string" where
  "lower s = map lower_char s"

section \<open>The general checks\<close>

definition COMMON_DESCRIPTION_PLACEHOLDERS :: "string list" where
  "COMMON_DESCRIPTION_PLACEHOLDERS = [''no description'', ''no desc'', ''none'']"

definition check_name_slashes_body :: "node \<Rightarrow> error + InspectorMessage option" where
  "check_name_slashes_body obj =
     (case name obj of
        Absent \<Rightarrow> Inr None
      | PyNone \<Rightarrow> Inl TypeError
      | Str s \<Rightarrow>
          if list_ex (\<lambda>x. str_in x s) [''/'', [CHR 0x5C]]
          then Inr (Some (InspectorMessage ''Object name contains slashes, .''))
          else Inr None)"

definition check_name_slashes :: "node \<Rightarrow> error + InspectorMessage option" where
  "check_name_slashes = register_check CRITICAL None check_name_slashes_body"

definition check_description_body :: "node \<Rightarrow> error + InspectorMessage option" where
  "check_description_body obj =
     (let common_description_placeholders = [''no description'', ''no desc'', ''none''] in
      case description obj of
        Absent \<Rightarrow> Inr None
      | PyNone \<Rightarrow> Inr (Some (InspectorMessage ''Description is missing.''))
      | Str d \<Rightarrow>
          if strip '' '' d = ''''
          then Inr (Some (InspectorMessage ''Description is missing.''))
          else if strip ''.'' (lower d) \<in> set common_description_placeholders
          then Inr (Some (InspectorMessage (''Description ('' @ d @ '') is a placeholder.'')))
          else Inr None)"

definition check_description :: "node \<Rightarrow> error + InspectorMessage option" where
  "check_description = register_check BEST_PRACTICE_SUGGESTION None check_description_body"

section \<open>The check of spike times\<close>

text \<open>
  Modelled from the spec: the check \<^verbatim>\<open>check_negative_spike_times\<close> of
  \<^verbatim>\<open>nwbinspector/checks/ecephys.py\<close>, of which only the tests are among the sources
  (\<^verbatim>\<open>tests/unit_tests/test_ecephys.py\<close>). A Units table is the list of its units, each
  the list of its spike times; the check reports once when some spike time of some unit
  is negative, and is registered for the type \<^verbatim>\<open>Units\<close>.
\<close>

definition check_negative_spike_times_body :: "rat list list \<Rightarrow> error + InspectorMessage option" where
  "check_negative_spike_times_body units_table =
     (if list_ex (list_ex (\<lambda>t. t < 0)) units_table
      then Inr (Some (InspectorMessage
        (''This Units table contains negative spike times. Time should generally be aligned '' @
         ''to the earliest time reference in the NWBFile.'')))
      else Inr None)"

definition check_negative_spike_times :: "rat list list \<Rightarrow> error + InspectorMessage option" where
  "check_negative_spike_times =
     register_check BEST_PRACTICE_VIOLATION (Some ''Units'') check_negative_spike_times_body"

section \<open>Worker-count policy\<close>

text \<open>
  \<^verbatim>\<open>get_thread_max_workers\<close> of \<^verbatim>\<open>nwbinspector/utils.py\<close>; the integers of the host
  language are unbounded. The second definition is the call with the default multiplier.
\<close>

definition get_thread_max_workers :: "int \<Rightarrow> int \<Rightarrow> int option" where
  "get_thread_max_workers n_jobs workers_per_thread =
     (if n_jobs \<noteq> - 1 then Some (n_jobs * workers_per_thread) else None)"

definition get_thread_max_workers_default :: "int \<Rightarrow> int option" where
  "get_thread_max_workers_default n_jobs = get_thread_max_workers n_jobs 5"

section \<open>Binary floating point\<close>

text \<open>
  \<^verbatim>\<open>nwbinspector/utils.py\<close> computes with the floats of the host language, which are
  IEEE 754 binary64 numbers. A finite float is modelled by the rational number it
  denotes, and an operation by the exact operation followed by rounding to the nearest
  number with a 53-bit significand, ties to the even significand. The exponent range is
  not bounded here: overflow is written out where the code can reach it (the conversion
  of an integer), and the values of \<^verbatim>\<open>format_byte_size\<close> never get small enough to
  underflow. Infinities and NaN come with the numeric series, which need them.

  \<open>flog2 x\<close> is the exponent \<open>e\<close> with \<open>2\<^sup>e \<le> x < 2\<^sup>e\<^sup>+\<^sup>1\<close> of a positive \<open>x\<close>, \<open>rint\<close> rounds
  to the nearest integer, ties to even, and \<open>rne\<close> rounds to the nearest float.
\<close>

definition flog2 :: "rat \<Rightarrow> int" where
  "flog2 x =
     (case quotient_of x of (a, b) \<Rightarrow>
        (let d = bitlen a - bitlen b in if 2 powi d \<le> x then d else d - 1))"

definition rint :: "rat \<Rightarrow> int" where
  "rint x =
     (let f = \<lfloor>x\<rfloor>; r = x - of_int f
      in if r < 1 / 2 then f else if 1 / 2 < r then f + 1 else if even f then f else f + 1)"

definition rne :: "rat \<Rightarrow> rat" where
  "rne x =
     (if x = 0 then 0
      else (let e = flog2 \<bar>x\<bar> - 52 in of_int (rint (x / 2 powi e)) * 2 powi e))"

text \<open>
  The variable \<^verbatim>\<open>num\<close> of \<^verbatim>\<open>format_byte_size\<close> holds an integer before the first
  division and a float after it. Converting an integer to a float rounds it and raises
  \<^verbatim>\<open>OverflowError\<close> when the result is not finite; comparing an integer with a float is
  exact; \<^verbatim>\<open>num / order\<close> converts an integer \<^verbatim>\<open>num\<close> first.
\<close>

datatype pynum = PyInt int | PyFloat rat

definition float_of_int :: "int \<Rightarrow> error + rat" where
  "float_of_int n =
     (let x = rne (of_int n) in if 2 ^ 1024 \<le> \<bar>x\<bar> then Inl OverflowError else Inr x)"

definition to_float :: "pynum \<Rightarrow> error + rat" where
  "to_float num = (case num of PyInt n \<Rightarrow> float_of_int n | PyFloat x \<Rightarrow> Inr x)"

definition abs_lt :: "pynum \<Rightarrow> rat \<Rightarrow> bool" where
  "abs_lt num order =
     (case num of PyInt n \<Rightarrow> of_int \<bar>n\<bar> < order | PyFloat x \<Rightarrow> \<bar>x\<bar> < order)"

definition truediv :: "pynum \<Rightarrow> rat \<Rightarrow> error + pynum" where
  "truediv num order =
     (case to_float num of Inl e \<Rightarrow> Inl e | Inr x \<Rightarrow> Inr (PyFloat (rne (x / order))))"

text \<open>
  The format specifications \<^verbatim>\<open>3.2f\<close> and \<^verbatim>\<open>.2f\<close>: the value as a float, rounded
  correctly to two decimals (ties to even), in decimal digits with a minus sign when it is
  negative, padded on the left with spaces to the minimum width.
\<close>

definition digit_char :: "nat \<Rightarrow> char" where
  "digit_char d = char_of (48 + d)"

fun digits_of_nat :: "nat \<Rightarrow> string" where
  "digits_of_nat n =
     (if n < 10 then [digit_char n] else digits_of_nat (n div 10) @ [digit_char (n mod 10)])"

declare digits_of_nat.simps [simp del]

definition fixed2 :: "rat \<Rightarrow> string" where
  "fixed2 x =
     (let r = nat (rint (\<bar>x\<bar> * 100))
      in (if x < 0 then ''-'' else '''') @ digits_of_nat (r div 100) @ ''.'' @
         [digit_char (r div 10 mod 10), digit_char (r mod 10)])"

definition format_f2 :: "nat \<Rightarrow> pynum \<Rightarrow> error + string" where
  "format_f2 width num =
     (case to_float num of
        Inl e \<Rightarrow> Inl e
      | Inr x \<Rightarrow> (let s = fixed2 x in Inr (replicate (width - length s) (CHR '' '') @ s)))"

section \<open>Formatting a byte count\<close>

text \<open>
  \<^verbatim>\<open>format_byte_size\<close> of \<^verbatim>\<open>nwbinspector/utils.py\<close>. \<open>scale_loop\<close> is its
  \<^verbatim>\<open>for prefix in prefixes\<close> loop together with the \<^verbatim>\<open>return\<close> after it.
\<close>

fun scale_loop :: "pynum \<Rightarrow> rat \<Rightarrow> string \<Rightarrow> string list \<Rightarrow> error + string" where
  "scale_loop num order suffix [] =
     (case format_f2 0 num of Inl e \<Rightarrow> Inl e | Inr s \<Rightarrow> Inr (s @ ''Y'' @ suffix))"
| "scale_loop num order suffix (prefix # prefixes) =
     (if abs_lt num order
      then (case format_f2 3 num of Inl e \<Rightarrow> Inl e | Inr s \<Rightarrow> Inr (s @ prefix @ suffix))
      else (case truediv num order of
              Inl e \<Rightarrow> Inl e
            | Inr num' \<Rightarrow> scale_loop num' order suffix prefixes))"

definition format_byte_size :: "int \<Rightarrow> string \<Rightarrow> error + string" where
  "format_byte_size byte_size units =
     (let num = PyInt byte_size;
          prefixes = ['''', ''K'', ''M'', ''G'', ''T'', ''P'', ''E'', ''Z'']
      in if units = ''SI'' then scale_loop num 1000 ''B'' prefixes
         else if units = ''binary'' then scale_loop num 1024 ''iB'' prefixes
         else Inl ValueError)"

text \<open>
  The value of \<^verbatim>\<open>num\<close> when the loop tests it for the \<open>k\<close>-th time: the byte count
  itself, then the byte count as a float, divided \<open>k\<close> times.
\<close>

definition scale_step :: "rat \<Rightarrow> rat \<Rightarrow> rat" where
  "scale_step order x = rne (x / order)"

definition scaled :: "rat \<Rightarrow> int \<Rightarrow> nat \<Rightarrow> rat" where
  "scaled order n k = (if k = 0 then of_int n else (scale_step order ^^ k) (rne (of_int n)))"

section \<open>Numeric series\<close>

text \<open>
  \<^verbatim>\<open>check_regular_series\<close> and \<^verbatim>\<open>is_ascending_series\<close> of \<^verbatim>\<open>nwbinspector/utils.py\<close> work
  on one-dimensional arrays of binary64 numbers. Here the exponent range matters: the
  difference of two large elements overflows, and so does the scaling inside \<^verbatim>\<open>round\<close>.
  A binary64 number is therefore a finite value, an infinity or NaN. \<open>Finite q\<close> stands
  for a float when \<open>q\<close> is a binary64 number, which \<open>is_float64\<close> tests. Zero carries no
  sign: the only divisors of this file are powers of ten. Arrays of integers are not
  modelled.

  \<open>rne64\<close> rounds to the nearest binary64 number: to 53 significant bits from
  \<open>2\<^sup>-\<^sup>1\<^sup>0\<^sup>2\<^sup>2\<close> on and to a multiple of \<open>2\<^sup>-\<^sup>1\<^sup>0\<^sup>7\<^sup>4\<close> below (gradual underflow), ties to
  even. \<open>round64\<close> adds the overflow: a result of magnitude \<open>2\<^sup>1\<^sup>0\<^sup>2\<^sup>4\<close> or more is infinite.
\<close>

datatype float64 = Finite rat | PInf | NInf | NaN

definition rne64 :: "rat \<Rightarrow> rat" where
  "rne64 x =
     (if \<bar>x\<bar> < 2 powi (- 1022)
      then of_int (rint (x / 2 powi (- 1074))) * 2 powi (- 1074)
      else rne x)"

definition round64 :: "rat \<Rightarrow> float64" where
  "round64 x =
     (let y = rne64 x
      in if 2 ^ 1024 \<le> y then PInf else if y \<le> - (2 ^ 1024) then NInf else Finite y)"

definition is_float64 :: "float64 \<Rightarrow> bool" where
  "is_float64 x = (case x of Finite a \<Rightarrow> round64 a = Finite a | _ \<Rightarrow> True)"

text \<open>
  The arithmetic of IEEE 754 on these values: subtraction, multiplication, division,
  rounding to an integral value (\<^verbatim>\<open>np.rint\<close>, ties to even) and the comparison \<^verbatim>\<open><\<close>,
  which is false as soon as one side is NaN.
\<close>

fun fneg :: "float64 \<Rightarrow> float64" where
  "fneg (Finite a) = Finite (- a)"
| "fneg PInf = NInf"
| "fneg NInf = PInf"
| "fneg NaN = NaN"

fun fsub :: "float64 \<Rightarrow> float64 \<Rightarrow> float64" where
  "fsub (Finite a) (Finite b) = round64 (a - b)"
| "fsub NaN y = NaN"
| "fsub x NaN = NaN"
| "fsub PInf PInf = NaN"
| "fsub NInf NInf = NaN"
| "fsub PInf y = PInf"
| "fsub NInf y = NInf"
| "fsub (Finite a) PInf = NInf"
| "fsub (Finite a) NInf = PInf"

fun fmul :: "float64 \<Rightarrow> float64 \<Rightarrow> float64" where
  "fmul (Finite a) (Finite b) = round64 (a * b)"
| "fmul NaN y = NaN"
| "fmul x NaN = NaN"
| "fmul (Finite a) y = (if a = 0 then NaN else if 0 < a then y else fneg y)"
| "fmul x (Finite b) = (if b = 0 then NaN else if 0 < b then x else fneg x)"
| "fmul PInf y = y"
| "fmul NInf y = fneg y"

fun fdiv :: "float64 \<Rightarrow> float64 \<Rightarrow> float64" where
  "fdiv (Finite a) (Finite b) =
     (if b = 0 then (if a = 0 then NaN else if 0 < a then PInf else NInf)
      else round64 (a / b))"
| "fdiv NaN y = NaN"
| "fdiv x NaN = NaN"
| "fdiv (Finite a) y = Finite 0"
| "fdiv x (Finite b) = (if 0 \<le> b then x else fneg x)"
| "fdiv x y = NaN"

fun frint :: "float64 \<Rightarrow> float64" where
  "frint (Finite a) = Finite (of_int (rint a))"
| "frint x = x"

fun flt :: "float64 \<Rightarrow> float64 \<Rightarrow> bool" where
  "flt (Finite a) (Finite b) = (a < b)"
| "flt NaN y = False"
| "flt x NaN = False"
| "flt x NInf = False"
| "flt PInf y = False"
| "flt NInf y = True"
| "flt x PInf = True"

text \<open>
  \<^verbatim>\<open>np.diff\<close> subtracts each element from its successor. \<^verbatim>\<open>round\<close> multiplies by a
  power of ten, rounds to an integral value and divides again, or the other way round for
  negative \<^verbatim>\<open>decimals\<close>, and is \<^verbatim>\<open>np.rint\<close> for \<^verbatim>\<open>decimals = 0\<close>; the power of ten is
  taken from a table below \<open>10\<^sup>9\<close> and computed by repeated multiplication above, so that it
  is infinite from \<open>10\<^sup>3\<^sup>0\<^sup>9\<close> on; NumPy reads \<^verbatim>\<open>decimals\<close> as a C \<^verbatim>\<open>int\<close>, the range that
  this model is meant for. \<^verbatim>\<open>np.unique\<close> sorts, NaN last, and keeps one element of each
  run of equal elements, a run of NaN included (NumPy 1.21 and later; earlier versions
  keep every NaN).
\<close>

definition np_diff :: "float64 list \<Rightarrow> float64 list" where
  "np_diff a = map (\<lambda>(x, y). fsub x y) (zip (tl a) a)"

definition power_of_ten :: "nat \<Rightarrow> float64" where
  "power_of_ten n =
     (if n < 9 then Finite (10 ^ n)
      else ((\<lambda>ret. fmul ret (Finite 10)) ^^ (n - 9)) (Finite (10 ^ 9)))"

definition np_round :: "int \<Rightarrow> float64 \<Rightarrow> float64" where
  "np_round decimals x =
     (if 0 \<le> decimals
      then (if decimals = 0 then frint x
            else (let f = power_of_ten (nat decimals)
                  in fdiv (frint (fmul x f)) f))
      else (let f = power_of_ten (nat (- decimals))
            in fmul (frint (fdiv x f)) f))"

definition sort_le :: "float64 \<Rightarrow> float64 \<Rightarrow> bool" where
  "sort_le x y = (if y = NaN then True else if x = NaN then False else \<not> flt y x)"

fun insort64 :: "float64 \<Rightarrow> float64 list \<Rightarrow> float64 list" where
  "insort64 x [] = [x]"
| "insort64 x (y # ys) = (if sort_le x y then x # y # ys else y # insort64 x ys)"

definition np_sort :: "float64 list \<Rightarrow> float64 list" where
  "np_sort ar = foldr insort64 ar []"

definition np_unique :: "float64 list \<Rightarrow> float64 list" where
  "np_unique ar = remdups_adj (np_sort ar)"

definition check_regular_series :: "float64 list \<Rightarrow> int \<Rightarrow> bool" where
  "check_regular_series series tolerance_decimals =
     (let uniq_diff_ts = np_unique (map (np_round tolerance_decimals) (np_diff series))
      in length uniq_diff_ts = 1)"

text \<open>
  A slice \<^verbatim>\<open>series[:nelems]\<close> takes everything for \<^verbatim>\<open>None\<close>, the first \<^verbatim>\<open>nelems\<close>
  elements for a non-negative bound and drops the last \<^verbatim>\<open>-nelems\<close> for a negative one.
  \<^verbatim>\<open>is_ascending_series\<close> tests each difference of the slice with \<^verbatim>\<open>> 0\<close>.
\<close>

definition slice_to :: "'a list \<Rightarrow> int option \<Rightarrow> 'a list" where
  "slice_to xs stop =
     (case stop of
        None \<Rightarrow> xs
      | Some k \<Rightarrow> if 0 \<le> k then take (nat k) xs else take (length xs - nat (- k)) xs)"

definition is_ascending_series :: "float64 list \<Rightarrow> int option \<Rightarrow> bool" where
  "is_ascending_series series nelems =
     list_all (\<lambda>d. flt (Finite 0) d) (np_diff (slice_to series nelems))"

section \<open>Properties of the string primitives\<close>

lemma str_in_single: "str_in [c] s = (c \<in> set s)"
  by (induction s) auto

lemma dropWhile_rev_dropWhile_Nil:
  "dropWhile P (rev (dropWhile P s)) = [] \<longleftrightarrow> (\<forall>c \<in> set s. P c)"
proof
  assume "dropWhile P (rev (dropWhile P s)) = []"
  then have all: "\<forall>c \<in> set (dropWhile P s). P c"
    by simp
  have "dropWhile P s = []"
  proof (rule ccontr)
    assume ne: "dropWhile P s \<noteq> []"
    then have "\<not> P (hd (dropWhile P s))"
      by (rule hd_dropWhile)
    moreover have "hd (dropWhile P s) \<in> set (dropWhile P s)"
      using ne by (rule hd_in_set)
    ultimately show False
      using all by blast
  qed
  then show "\<forall>c \<in> set s. P c"
    by simp
next
  assume "\<forall>c \<in> set s. P c"
  then show "dropWhile P (rev (dropWhile P s)) = []"
    by (auto dest: set_dropWhileD)
qed

lemma strip_empty_iff: "strip chars s = [] \<longleftrightarrow> set s \<subseteq> set chars"
  unfolding strip_def rev_is_Nil_conv dropWhile_rev_dropWhile_Nil by auto

lemma dropWhile_eq_decompose:
  "\<exists>pre. s = pre @ dropWhile P s \<and> (\<forall>c \<in> set pre. P c)"
proof (intro exI conjI)
  show "s = takeWhile P s @ dropWhile P s" by simp
  show "\<forall>c \<in> set (takeWhile P s). P c" by (auto dest: set_takeWhileD)
qed

lemma strip_decompose:
  "\<exists>pre post. s = pre @ strip chars s @ post \<and> set pre \<subseteq> set chars \<and> set post \<subseteq> set chars"
proof -
  let ?P = "\<lambda>c. c \<in> set chars"
  obtain pre where pre: "s = pre @ dropWhile ?P s" "\<forall>c \<in> set pre. ?P c"
    using dropWhile_eq_decompose [of s ?P] by (elim exE conjE)
  obtain q where q: "rev (dropWhile ?P s) = q @ dropWhile ?P (rev (dropWhile ?P s))"
    "\<forall>c \<in> set q. ?P c"
    using dropWhile_eq_decompose [of "rev (dropWhile ?P s)" ?P] by (elim exE conjE)
  have "rev (rev (dropWhile ?P s)) = rev (q @ dropWhile ?P (rev (dropWhile ?P s)))"
    using q(1) by (rule arg_cong)
  then have "dropWhile ?P s = strip chars s @ rev q"
    by (simp add: strip_def)
  then have "s = pre @ strip chars s @ rev q"
    using pre(1) by simp
  moreover have "set pre \<subseteq> set chars" using pre(2) by blast
  moreover have "set (rev q) \<subseteq> set chars" using q(2) by auto
  ultimately show ?thesis by blast
qed

lemma strip_sandwich:
  assumes "p \<noteq> []" "hd p \<notin> set chars" "last p \<notin> set chars"
    and "set pre \<subseteq> set chars" "set post \<subseteq> set chars"
  shows "strip chars (pre @ p @ post) = p"
proof -
  let ?P = "\<lambda>c. c \<in> set chars"
  have "\<And>c. c \<in> set pre \<Longrightarrow> ?P c"
    using assms(4) by auto
  then have "dropWhile ?P (pre @ p @ post) = dropWhile ?P (p @ post)"
    by (rule dropWhile_append2)
  also have "\<dots> = p @ post"
    using assms(1,2) by (cases p) auto
  finally have a: "dropWhile ?P (pre @ p @ post) = p @ post" .
  have "\<And>c. c \<in> set (rev post) \<Longrightarrow> ?P c"
    using assms(5) by auto
  then have "dropWhile ?P (rev post @ rev p) = dropWhile ?P (rev p)"
    by (rule dropWhile_append2)
  then have "dropWhile ?P (rev (p @ post)) = dropWhile ?P (rev p)"
    by simp
  also have "\<dots> = rev p"
    using assms(1,3) by (cases p rule: rev_cases) auto
  finally show ?thesis
    by (simp add: strip_def a)
qed

lemma all_same_replicate: "set xs \<subseteq> {a} \<Longrightarrow> xs = replicate (length xs) a"
  by (induction xs) auto

lemma strip_eq_iff:
  assumes "p \<noteq> []" "hd p \<noteq> a" "last p \<noteq> a"
  shows "strip [a] x = p \<longleftrightarrow> (\<exists>i j. x = replicate i a @ p @ replicate j a)"
proof
  assume s: "strip [a] x = p"
  obtain pre post where d: "x = pre @ strip [a] x @ post" "set pre \<subseteq> set [a]" "set post \<subseteq> set [a]"
    using strip_decompose [of x "[a]"] by (elim exE conjE)
  have "pre = replicate (length pre) a" "post = replicate (length post) a"
    using d(2,3) by (simp_all add: all_same_replicate)
  then have "x = replicate (length pre) a @ p @ replicate (length post) a"
    using d(1) s by simp
  then show "\<exists>i j. x = replicate i a @ p @ replicate j a"
    by (intro exI)
next
  assume "\<exists>i j. x = replicate i a @ p @ replicate j a"
  then obtain i j where x: "x = replicate i a @ p @ replicate j a"
    by (elim exE)
  show "strip [a] x = p"
    unfolding x using assms by (intro strip_sandwich) auto
qed

lemma placeholder_match:
  "strip ''.'' x \<in> set COMMON_DESCRIPTION_PLACEHOLDERS \<longleftrightarrow>
   (\<exists>p \<in> set COMMON_DESCRIPTION_PLACEHOLDERS. \<exists>i j.
      x = replicate i (CHR ''.'') @ p @ replicate j (CHR ''.''))"
proof -
  have e1: "strip ''.'' x = ''no description'' \<longleftrightarrow>
      (\<exists>i j. x = replicate i (CHR ''.'') @ ''no description'' @ replicate j (CHR ''.''))"
    by (rule strip_eq_iff) simp_all
  have e2: "strip ''.'' x = ''no desc'' \<longleftrightarrow>
      (\<exists>i j. x = replicate i (CHR ''.'') @ ''no desc'' @ replicate j (CHR ''.''))"
    by (rule strip_eq_iff) simp_all
  have e3: "strip ''.'' x = ''none'' \<longleftrightarrow>
      (\<exists>i j. x = replicate i (CHR ''.'') @ ''none'' @ replicate j (CHR ''.''))"
    by (rule strip_eq_iff) simp_all
  show ?thesis
    unfolding COMMON_DESCRIPTION_PLACEHOLDERS_def
    by (simp only: set_simps insert_iff empty_iff bex_simps simp_thms e1 e2 e3 bex_triv_one_point1 bex_triv_one_point2 ex_disj_distrib) 
qed

section \<open>The name check\<close>

text \<open>
  C2. For every object whose \<^verbatim>\<open>name\<close> attribute is a string, \<^verbatim>\<open>check_name_slashes\<close>
  returns one finding, at the registered importance \<^verbatim>\<open>CRITICAL\<close>, when the name
  contains a forward slash or a backslash, and no finding when it contains neither.
\<close>

theorem check_name_slashes_iff:
  "name obj = Str s \<Longrightarrow>
   check_name_slashes obj =
     (if CHR ''/'' \<in> set s \<or> CHR 0x5C \<in> set s
      then Inr (Some \<lparr>message = ''Object name contains slashes, .'',
                       severity = NO_SEVERITY, importance = Some CRITICAL\<rparr>)
      else Inr None)"
  by (simp add: check_name_slashes_def register_check_def check_name_slashes_body_def
      str_in_single InspectorMessage_def)

theorem check_name_slashes_iff_witness:
  "check_name_slashes \<lparr>name = Str ''a/b'', description = Absent\<rparr> =
     Inr (Some \<lparr>message = ''Object name contains slashes, .'',
                 severity = NO_SEVERITY, importance = Some CRITICAL\<rparr>)
   \<and> check_name_slashes \<lparr>name = Str ''ab'', description = Absent\<rparr> = Inr None"
  using check_name_slashes_iff [of "\<lparr>name = Str ''a/b'', description = Absent\<rparr>" "''a/b''"]
    check_name_slashes_iff [of "\<lparr>name = Str ''ab'', description = Absent\<rparr>" "''ab''"]
  by simp

section \<open>The description check\<close>

text \<open>
  C3. For every object without a \<^verbatim>\<open>description\<close> attribute, \<^verbatim>\<open>check_description\<close>
  returns no finding and raises no fault.
\<close>

theorem check_description_absent:
  "description obj = Absent \<Longrightarrow> check_description obj = Inr None"
  by (simp add: check_description_def register_check_def check_description_body_def)

theorem check_description_absent_witness:
  "check_description \<lparr>name = Str ''acquisition'', description = Absent\<rparr> = Inr None"
  using check_description_absent [of "\<lparr>name = Str ''acquisition'', description = Absent\<rparr>"]
  by simp

text \<open>
  C1, as the code has it. For every object whose \<^verbatim>\<open>description\<close> is \<^verbatim>\<open>None\<close>, or a
  string made of space characters only (the empty string included), or a string that,
  lower-cased, is one of the placeholders \<^verbatim>\<open>no description\<close>, \<^verbatim>\<open>no desc\<close>,
  \<^verbatim>\<open>none\<close> between any number of leading and trailing periods, \<^verbatim>\<open>check_description\<close>
  returns one finding at the registered importance \<^verbatim>\<open>BEST_PRACTICE_SUGGESTION\<close>; for every
  other string it returns no finding.
\<close>

theorem check_description_string:
  "(description obj = PyNone \<longrightarrow>
      check_description obj =
        Inr (Some \<lparr>message = ''Description is missing.'', severity = NO_SEVERITY,
                    importance = Some BEST_PRACTICE_SUGGESTION\<rparr>))
   \<and> (description obj = Str d \<longrightarrow>
      check_description obj =
        (if set d \<subseteq> {CHR '' ''}
         then Inr (Some \<lparr>message = ''Description is missing.'', severity = NO_SEVERITY,
                          importance = Some BEST_PRACTICE_SUGGESTION\<rparr>)
         else if \<exists>p \<in> set COMMON_DESCRIPTION_PLACEHOLDERS. \<exists>i j.
                   lower d = replicate i (CHR ''.'') @ p @ replicate j (CHR ''.'')
         then Inr (Some \<lparr>message = ''Description ('' @ d @ '') is a placeholder.'',
                          severity = NO_SEVERITY,
                          importance = Some BEST_PRACTICE_SUGGESTION\<rparr>)
         else Inr None))"
proof (intro conjI impI)
  assume "description obj = PyNone"
  then show "check_description obj =
        Inr (Some \<lparr>message = ''Description is missing.'', severity = NO_SEVERITY,
                    importance = Some BEST_PRACTICE_SUGGESTION\<rparr>)"
    by (simp add: check_description_def register_check_def check_description_body_def
        InspectorMessage_def)
next
  assume d: "description obj = Str d"
  have sp: "strip '' '' d = [] \<longleftrightarrow> set d \<subseteq> {CHR '' ''}"
    by (simp add: strip_empty_iff)
  have pl: "strip ''.'' (lower d) \<in> set [''no description'', ''no desc'', ''none''] \<longleftrightarrow>
      (\<exists>p \<in> set COMMON_DESCRIPTION_PLACEHOLDERS. \<exists>i j.
         lower d = replicate i (CHR ''.'') @ p @ replicate j (CHR ''.''))"
    using placeholder_match [of "lower d"] by (simp only: COMMON_DESCRIPTION_PLACEHOLDERS_def)
  show "check_description obj =
        (if set d \<subseteq> {CHR '' ''}
         then Inr (Some \<lparr>message = ''Description is missing.'', severity = NO_SEVERITY,
                          importance = Some BEST_PRACTICE_SUGGESTION\<rparr>)
         else if \<exists>p \<in> set COMMON_DESCRIPTION_PLACEHOLDERS. \<exists>i j.
                   lower d = replicate i (CHR ''.'') @ p @ replicate j (CHR ''.'')
         then Inr (Some \<lparr>message = ''Description ('' @ d @ '') is a placeholder.'',
                          severity = NO_SEVERITY,
                          importance = Some BEST_PRACTICE_SUGGESTION\<rparr>)
         else Inr None)"
    unfolding check_description_def register_check_def check_description_body_def
      InspectorMessage_def Let_def d attr.case sp pl
    by simp
qed

theorem check_description_string_witness:
  "check_description \<lparr>name = Absent, description = Str ''No Desc.''\<rparr> =
     Inr (Some \<lparr>message = ''Description (No Desc.) is a placeholder.'',
                 severity = NO_SEVERITY, importance = Some BEST_PRACTICE_SUGGESTION\<rparr>)
   \<and> check_description \<lparr>name = Absent, description = Str ''  ''\<rparr> =
     Inr (Some \<lparr>message = ''Description is missing.'',
                 severity = NO_SEVERITY, importance = Some BEST_PRACTICE_SUGGESTION\<rparr>)
   \<and> check_description \<lparr>name = Absent, description = PyNone\<rparr> =
     Inr (Some \<lparr>message = ''Description is missing.'',
                 severity = NO_SEVERITY, importance = Some BEST_PRACTICE_SUGGESTION\<rparr>)"
proof -
  have lw: "lower ''No Desc.'' = ''no desc.''"
    by code_simp
  have ex: "\<exists>p \<in> set COMMON_DESCRIPTION_PLACEHOLDERS. \<exists>i j.
      lower ''No Desc.'' = replicate i (CHR ''.'') @ p @ replicate j (CHR ''.'')"
    unfolding lw COMMON_DESCRIPTION_PLACEHOLDERS_def
    by (rule bexI [of _ "''no desc''"], rule exI [of _ 0], rule exI [of _ "Suc 0"]) simp_all
  show ?thesis
    using check_description_string [of "\<lparr>name = Absent, description = Str ''No Desc.''\<rparr>" "''No Desc.''"]
      check_description_string [of "\<lparr>name = Absent, description = Str ''  ''\<rparr>" "''  ''"]
      check_description_string [of "\<lparr>name = Absent, description = PyNone\<rparr>" "''''"]
      ex
    by simp
qed

text \<open>
  The blank test is \<^verbatim>\<open>strip(" ")\<close>, which removes space characters only. A description
  that is a single tab character is whitespace-only, is not \<^verbatim>\<open>""\<close> after the strip and
  is no placeholder: the check returns no finding.
\<close>

theorem check_description_tab_counterexample:
  "check_description \<lparr>name = Absent, description = Str [CHR 0x09]\<rparr> = Inr None"
  by code_simp

section \<open>The check of spike times, verified\<close>

text \<open>
  C4. \<^verbatim>\<open>check_negative_spike_times\<close> returns no finding for an empty Units table and for
  a table whose spike times are all non-negative; when some unit has a negative spike
  time it returns one finding with the message below, at importance
  \<^verbatim>\<open>BEST_PRACTICE_VIOLATION\<close> and severity \<^verbatim>\<open>NO_SEVERITY\<close>.
\<close>

theorem check_negative_spike_times_spec:
  "check_negative_spike_times [] = Inr None
   \<and> check_negative_spike_times units_table =
     (if \<exists>spike_times \<in> set units_table. \<exists>t \<in> set spike_times. t < 0
      then Inr (Some \<lparr>message =
                  ''This Units table contains negative spike times. Time should generally be aligned '' @
                  ''to the earliest time reference in the NWBFile.'',
                  severity = NO_SEVERITY, importance = Some BEST_PRACTICE_VIOLATION\<rparr>)
      else Inr None)"
  by (simp add: check_negative_spike_times_def register_check_def
      check_negative_spike_times_body_def InspectorMessage_def list_ex_iff)

theorem check_negative_spike_times_spec_witness:
  "check_negative_spike_times [] = Inr None
   \<and> check_negative_spike_times [[0, 3602879701896397 / 36028797018963968], [1]] = Inr None
   \<and> check_negative_spike_times [[0, 3602879701896397 / 36028797018963968], [- 1]] =
     Inr (Some \<lparr>message =
            ''This Units table contains negative spike times. Time should generally be aligned '' @
            ''to the earliest time reference in the NWBFile.'',
            severity = NO_SEVERITY, importance = Some BEST_PRACTICE_VIOLATION\<rparr>)"
  using check_negative_spike_times_spec [of "[[0, 3602879701896397 / 36028797018963968], [1]]"]
    check_negative_spike_times_spec [of "[[0, 3602879701896397 / 36028797018963968], [- 1]]"]
  by simp

section \<open>Worker counts\<close>

text \<open>
  C7. For every positive \<^verbatim>\<open>n_jobs\<close>, \<^verbatim>\<open>get_thread_max_workers\<close> returns
  \<^verbatim>\<open>n_jobs\<close> times \<^verbatim>\<open>workers_per_thread\<close>, five times \<^verbatim>\<open>n_jobs\<close> with the default
  multiplier; for the sentinel \<^verbatim>\<open>-1\<close> it returns \<^verbatim>\<open>None\<close>.
\<close>

theorem get_thread_max_workers_spec:
  "(0 < n_jobs \<longrightarrow>
      get_thread_max_workers n_jobs workers_per_thread = Some (n_jobs * workers_per_thread)
      \<and> get_thread_max_workers_default n_jobs = Some (n_jobs * 5))
   \<and> get_thread_max_workers (- 1) workers_per_thread = None
   \<and> get_thread_max_workers_default (- 1) = None"
  by (simp add: get_thread_max_workers_def get_thread_max_workers_default_def)

theorem get_thread_max_workers_spec_witness:
  "(0::int) < 4
   \<and> get_thread_max_workers 4 3 = Some 12
   \<and> get_thread_max_workers_default 4 = Some 20
   \<and> get_thread_max_workers (- 1) 3 = None
   \<and> get_thread_max_workers_default (- 1) = None"
  using get_thread_max_workers_spec [of 4 3]
  by simp

section \<open>Properties of rounding\<close>

lemma bitlen_bounds_powi:
  fixes a :: int
  assumes "0 < a"
  shows "(2::rat) powi (bitlen a - 1) \<le> of_int a" and "of_int a < (2::rat) powi (bitlen a)"
proof -
  have b1: "1 \<le> bitlen a"
    using assms bitlen_eq_zero_iff [of a] bitlen_nonneg [of a] by linarith
  have "(2::int) ^ nat (bitlen a - 1) \<le> a" and "a < 2 ^ nat (bitlen a)"
    using bitlen_bounds [OF assms] by simp_all
  then have "(of_int ((2::int) ^ nat (bitlen a - 1)) :: rat) \<le> of_int a"
    and "(of_int a :: rat) < of_int (2 ^ nat (bitlen a))"
    by (simp_all only: of_int_le_iff of_int_less_iff)
  then show "(2::rat) powi (bitlen a - 1) \<le> of_int a" and "of_int a < (2::rat) powi (bitlen a)"
    using b1 by (simp_all add: power_int_nonneg_exp)
qed

lemma powi2_less_iff: "(2::rat) powi m < 2 powi n \<longleftrightarrow> m < n"
proof
  assume l: "(2::rat) powi m < 2 powi n"
  show "m < n"
  proof (rule ccontr)
    assume "\<not> m < n"
    then have "n \<le> m" by simp
    then have "(2::rat) powi n \<le> 2 powi m"
      by (rule power_int_increasing) simp
    then show False using l by simp
  qed
next
  assume "m < n"
  then show "(2::rat) powi m < 2 powi n"
    by (rule power_int_strict_increasing) simp
qed

lemma powi2_le_iff: "(2::rat) powi m \<le> 2 powi n \<longleftrightarrow> m \<le> n"
  using powi2_less_iff [of n m] by (simp add: not_less [symmetric])

lemma flog2_bounds:
  assumes "0 < x"
  shows "2 powi (flog2 x) \<le> x" and "x < 2 powi (flog2 x + 1)"
proof -
  obtain a b where q: "quotient_of x = (a, b)"
    by (cases "quotient_of x")
  have b: "0 < b" using q by (rule quotient_of_denom_pos)
  have x: "x = of_int a / of_int b" using q by (rule quotient_of_div)
  have a: "0 < a"
    using assms b unfolding x by (simp add: zero_less_divide_iff)
  define d where "d = bitlen a - bitlen b"
  have la: "(2::rat) powi (bitlen a - 1) \<le> of_int a" "of_int a < (2::rat) powi (bitlen a)"
    using bitlen_bounds_powi [OF a] by simp_all
  have lb: "(2::rat) powi (bitlen b - 1) \<le> of_int b" "of_int b < (2::rat) powi (bitlen b)"
    using bitlen_bounds_powi [OF b] by simp_all
  have bpos: "(0::rat) < of_int b" using b by simp
  have p0: "\<And>k. (0::rat) < 2 powi k" by simp
  have "x < 2 powi (bitlen a) / 2 powi (bitlen b - 1)"
    unfolding x using la(2) lb(1) a p0
    by (intro frac_less) simp_all
  also have "\<dots> = 2 powi (d + 1)"
    by (simp add: d_def power_int_diff [symmetric] algebra_simps)
  finally have up: "x < 2 powi (d + 1)" .
  have "2 powi (bitlen a - 1) / 2 powi (bitlen b) \<le> x"
    unfolding x using la(1) lb(2) bpos a
    by (intro frac_le) simp_all
  moreover have "2 powi (bitlen a - 1) / 2 powi (bitlen b) = (2::rat) powi (d - 1)"
    by (simp add: d_def power_int_diff [symmetric] algebra_simps)
  ultimately have lo: "2 powi (d - 1) \<le> x" by simp
  have f: "flog2 x = (if 2 powi d \<le> x then d else d - 1)"
    by (simp add: flog2_def q d_def Let_def)
  show "2 powi (flog2 x) \<le> x"
    using lo by (simp add: f)
  show "x < 2 powi (flog2 x + 1)"
    using up by (simp add: f not_le)
qed

lemma flog2_unique:
  assumes "2 powi k \<le> x" "x < 2 powi (k + 1)"
  shows "flog2 x = k"
proof -
  have x: "0 < x" using assms(1) by (rule less_le_trans [rotated]) simp
  note b = flog2_bounds [OF x]
  have "(2::rat) powi k < 2 powi (flog2 x + 1)"
    using assms(1) b(2) by (rule le_less_trans)
  then have "k < flog2 x + 1"
    by (simp only: powi2_less_iff)
  moreover have "(2::rat) powi (flog2 x) < 2 powi (k + 1)"
    using b(1) assms(2) by (rule le_less_trans)
  then have "flog2 x < k + 1"
    by (simp only: powi2_less_iff)
  ultimately show ?thesis by simp
qed

lemma rint_of_int [simp]: "rint (of_int k) = k"
  by (simp add: rint_def)

lemma rint_cases: "rint x = \<lfloor>x\<rfloor> \<or> rint x = \<lfloor>x\<rfloor> + 1"
  by (simp add: rint_def Let_def)

lemma rint_floor_le: "\<lfloor>x\<rfloor> \<le> rint x" and rint_le_floor: "rint x \<le> \<lfloor>x\<rfloor> + 1"
  using rint_cases [of x] by auto

lemma rint_mono:
  assumes "x \<le> y"
  shows "rint x \<le> rint y"
proof (cases "\<lfloor>x\<rfloor> = \<lfloor>y\<rfloor>")
  case True
  have "x - of_int \<lfloor>x\<rfloor> \<le> y - of_int \<lfloor>y\<rfloor>"
    using assms True by simp
  then show ?thesis
    unfolding rint_def Let_def True [symmetric] by auto
next
  case False
  have "\<lfloor>x\<rfloor> \<le> \<lfloor>y\<rfloor>" using assms by (rule floor_mono)
  then have "\<lfloor>x\<rfloor> + 1 \<le> \<lfloor>y\<rfloor>" using False by simp
  then show ?thesis
    using rint_le_floor [of x] rint_floor_le [of y] by linarith
qed

lemma rint_ge: "of_int k \<le> x \<Longrightarrow> k \<le> rint x"
  using rint_mono [of "of_int k" x] by simp

lemma rint_le: "x \<le> of_int k \<Longrightarrow> rint x \<le> k"
  using rint_mono [of x "of_int k"] by simp

lemma rint_minus: "rint (- x) = - rint x"
proof (cases "x = of_int \<lfloor>x\<rfloor>")
  case True
  then obtain k where "x = of_int k" ..
  then show ?thesis
    by (simp flip: of_int_minus)
next
  case False
  then have c: "\<lceil>x\<rceil> = \<lfloor>x\<rfloor> + 1"
    by (metis ceiling_altdef)
  have fl: "\<lfloor>- x\<rfloor> = - \<lfloor>x\<rfloor> - 1"
    using c by (simp add: ceiling_def)
  have r: "0 < x - of_int \<lfloor>x\<rfloor>"
    using False of_int_floor_le [of x] by (simp add: less_le)
  show ?thesis
    unfolding rint_def Let_def fl using r
    by (auto simp: algebra_simps)
qed

lemma rint_near: "\<bar>of_int (rint x) - x\<bar> \<le> 1 / 2"
proof -
  have "of_int \<lfloor>x\<rfloor> \<le> x" "x < of_int \<lfloor>x\<rfloor> + 1"
    by linarith+
  then show ?thesis
    unfolding rint_def Let_def by (auto simp: abs_le_iff)
qed

lemma powi2_pos [simp]: "(0::rat) < 2 powi e"
  by (rule zero_less_power_int) simp

lemma powi2_not_neg [simp]: "\<not> (2::rat) powi e < 0" "\<not> (2::rat) powi e \<le> 0"
  using powi2_pos [of e] by (simp_all only: not_less not_le less_imp_le)

lemma rne_zero [simp]: "rne 0 = 0"
  by (simp add: rne_def)

lemma rne_eval:
  assumes "2 powi k \<le> \<bar>x\<bar>" "\<bar>x\<bar> < 2 powi (k + 1)"
  shows "rne x = of_int (rint (x / 2 powi (k - 52))) * 2 powi (k - 52)"
proof -
  have "flog2 \<bar>x\<bar> = k" using assms by (rule flog2_unique)
  moreover have "x \<noteq> 0" using assms(1) by auto
  ultimately show ?thesis by (simp add: rne_def Let_def)
qed

lemma rne_minus: "rne (- x) = - rne x"
  by (simp add: rne_def Let_def rint_minus)

lemma rne_pos_bounds:
  assumes "0 < x"
  shows "2 powi (flog2 x) \<le> rne x" and "rne x \<le> 2 powi (flog2 x + 1)"
proof -
  define e where "e = flog2 x - 52"
  have p: "(0::rat) < 2 powi e" by (rule powi2_pos)
  have r: "rne x = of_int (rint (x / 2 powi e)) * 2 powi e"
    using assms by (simp add: rne_def Let_def e_def)
  have "2 powi (flog2 x) \<le> x" "x < 2 powi (flog2 x + 1)"
    using flog2_bounds [OF assms] by simp_all
  then have "2 powi (flog2 x) / 2 powi e \<le> x / 2 powi e" "x / 2 powi e \<le> 2 powi (flog2 x + 1) / 2 powi e"
    using p by (simp_all add: divide_le_cancel)
  moreover have "2 powi (flog2 x) / 2 powi e = (of_int (2 ^ 52) :: rat)"
    by (simp add: e_def power_int_diff [symmetric])
  moreover have "2 powi (flog2 x + 1) / 2 powi e = (of_int (2 ^ 53) :: rat)"
    by (simp add: e_def power_int_diff [symmetric])
  ultimately have q: "(of_int (2 ^ 52) :: rat) \<le> x / 2 powi e" "x / 2 powi e \<le> (of_int (2 ^ 53) :: rat)"
    by simp_all
  have "2 ^ 52 \<le> rint (x / 2 powi e)" "rint (x / 2 powi e) \<le> 2 ^ 53"
    using q(1) apply (rule rint_ge)
    using q(2) apply (rule rint_le)
    done
  then have "(of_int (2 ^ 52) :: rat) \<le> of_int (rint (x / 2 powi e))"
    "(of_int (rint (x / 2 powi e)) :: rat) \<le> of_int (2 ^ 53)"
    by (simp_all only: of_int_le_iff)
  then have "(of_int (2 ^ 52) :: rat) * 2 powi e \<le> rne x" "rne x \<le> (of_int (2 ^ 53) :: rat) * 2 powi e"
    unfolding r using p by (simp_all only: mult_le_cancel_right_pos)
  moreover have "(of_int (2 ^ 52) :: rat) * 2 powi e = 2 powi (flog2 x)"
    by (simp add: e_def power_int_diff)
  moreover have "(of_int (2 ^ 53) :: rat) * 2 powi e = 2 powi (flog2 x + 1)"
    by (simp add: e_def power_int_diff power_int_add)
  ultimately show "2 powi (flog2 x) \<le> rne x" and "rne x \<le> 2 powi (flog2 x + 1)"
    by simp_all
qed

lemma rne_pos: "0 < x \<Longrightarrow> 0 < rne x"
  using rne_pos_bounds(1) [of x] by (rule_tac less_le_trans [of _ "2 powi (flog2 x)"]) simp_all

lemma flog2_mono:
  assumes "0 < x" "x \<le> y"
  shows "flog2 x \<le> flog2 y"
proof -
  have y: "0 < y" using assms by simp
  have "2 powi (flog2 x) \<le> x" using flog2_bounds(1) [OF assms(1)] .
  also have "x \<le> y" by fact
  also have "y < 2 powi (flog2 y + 1)" using flog2_bounds(2) [OF y] .
  finally have "flog2 x < flog2 y + 1" by (simp only: powi2_less_iff)
  then show ?thesis by simp
qed

lemma rne_mono_pos:
  assumes "0 < x" "x \<le> y"
  shows "rne x \<le> rne y"
proof (cases "flog2 x = flog2 y")
  case True
  have y: "0 < y" using assms by simp
  define e where "e = flog2 x - 52"
  have "x / 2 powi e \<le> y / 2 powi e"
    using assms(2) by (simp add: divide_le_cancel)
  then have "rint (x / 2 powi e) \<le> rint (y / 2 powi e)"
    by (rule rint_mono)
  then have "(of_int (rint (x / 2 powi e)) :: rat) * 2 powi e \<le> of_int (rint (y / 2 powi e)) * 2 powi e"
    by (simp add: mult_le_cancel_right_pos)
  then show ?thesis
    using assms(1) y True by (simp add: rne_def Let_def e_def)
next
  case False
  have y: "0 < y" using assms by simp
  have "flog2 x \<le> flog2 y" using assms by (rule flog2_mono)
  then have "flog2 x + 1 \<le> flog2 y" using False by simp
  then have "(2::rat) powi (flog2 x + 1) \<le> 2 powi (flog2 y)"
    by (simp only: powi2_le_iff)
  then show ?thesis
    using rne_pos_bounds(2) [OF assms(1)] rne_pos_bounds(1) [OF y] by linarith
qed

lemma rne_mono:
  assumes "x \<le> y"
  shows "rne x \<le> rne y"
proof -
  consider "0 < x" | "x \<le> 0" "0 \<le> y" | "y < 0" using assms by linarith
  then show ?thesis
  proof cases
    case 1
    then show ?thesis using assms by (rule rne_mono_pos)
  next
    case 2
    have "rne x \<le> 0"
    proof (cases "x = 0")
      case True then show ?thesis by simp
    next
      case False
      then have "0 < - x" using 2(1) by simp
      then have "0 < rne (- x)" by (rule rne_pos)
      then show ?thesis by (simp add: rne_minus)
    qed
    moreover have "0 \<le> rne y"
    proof (cases "y = 0")
      case True then show ?thesis by simp
    next
      case False
      then have "0 < y" using 2(2) by simp
      then have "0 < rne y" by (rule rne_pos)
      then show ?thesis by simp
    qed
    ultimately show ?thesis by simp
  next
    case 3
    then have "0 < - y" "- y \<le> - x" using assms by simp_all
    then have "rne (- y) \<le> rne (- x)" by (rule rne_mono_pos)
    then show ?thesis by (simp add: rne_minus)
  qed
qed

lemma rne_of_int_exact:
  assumes "\<bar>n\<bar> < 2 ^ 53"
  shows "rne (of_int n) = of_int n"
proof (cases "n = 0")
  case True
  then show ?thesis by simp
next
  case False
  define x :: rat where "x = \<bar>of_int n\<bar>"
  have xpos: "0 < x" using False by (simp add: x_def)
  define e where "e = flog2 x - 52"
  have "2 powi (flog2 x) \<le> x" using flog2_bounds(1) [OF xpos] .
  also have "x < 2 powi 53"
  proof -
    have "(of_int \<bar>n\<bar> :: rat) < of_int (2 ^ 53)"
      using assms by (simp only: of_int_less_iff)
    then show ?thesis by (simp add: x_def)
  qed
  finally have "flog2 x < 53" by (simp only: powi2_less_iff)
  then have e: "e \<le> 0" by (simp add: e_def)
  define k where "k = nat (- e)"
  have ek: "e = - int k" using e by (simp add: k_def)
  have pe: "2 powi e = inverse ((2::rat) ^ k)"
    unfolding ek by (simp only: power_int_minus power_int_of_nat)
  have k0: "(2::rat) ^ k \<noteq> 0" by simp
  have d: "of_int n / 2 powi e = (of_int (n * 2 ^ k) :: rat)"
    unfolding pe by (simp only: divide_inverse inverse_inverse_eq of_int_mult of_int_power of_int_numeral)
  have "rne (of_int n) = of_int (rint (of_int n / 2 powi e)) * 2 powi e"
    using False by (simp add: rne_def Let_def e_def x_def)
  also have "\<dots> = of_int (n * 2 ^ k) * 2 powi e"
    unfolding d by (simp only: rint_of_int)
  also have "\<dots> = of_int n * ((2::rat) ^ k * inverse (2 ^ k))"
    unfolding pe by (simp only: of_int_mult of_int_power of_int_numeral mult.assoc)
  also have "\<dots> = of_int n"
    by (simp only: right_inverse [OF k0] mult_1_right)
  finally show ?thesis .
qed

lemma rint_eqI:
  assumes "\<bar>x - of_int m\<bar> < 1 / 2"
  shows "rint x = m"
proof -
  have "\<bar>of_int (rint x) - x\<bar> \<le> 1 / 2" by (rule rint_near)
  then have "\<bar>(of_int (rint x) :: rat) - of_int m\<bar> < 1"
    using assms by linarith
  then have "\<bar>(of_int (rint x - m) :: rat)\<bar> < of_int 1"
    by simp
  then have "\<bar>rint x - m\<bar> < 1"
    by (simp only: of_int_abs [symmetric] of_int_less_iff)
  then show ?thesis by simp
qed

lemma rne_eqI:
  assumes "2 powi k \<le> \<bar>x\<bar>" "\<bar>x\<bar> < 2 powi (k + 1)"
    and "\<bar>x - of_int m * 2 powi (k - 52)\<bar> < 2 powi (k - 52) / 2"
  shows "rne x = of_int m * 2 powi (k - 52)"
proof -
  define P :: rat where "P = 2 powi (k - 52)"
  have P: "0 < P" by (simp add: P_def)
  have "\<bar>x - of_int m * P\<bar> / P < (P / 2) / P"
    using assms(3) P unfolding P_def [symmetric] by (simp only: divide_strict_right_mono)
  moreover have "\<bar>x - of_int m * P\<bar> / P = \<bar>x / P - of_int m\<bar>"
    using P by (simp add: abs_div_pos diff_divide_distrib)
  moreover have "(P / 2) / P = 1 / 2"
    using P by simp
  ultimately have "\<bar>x / P - of_int m\<bar> < 1 / 2" by simp
  then have "rint (x / P) = m" by (rule rint_eqI)
  then show ?thesis
    using rne_eval [OF assms(1,2)] by (simp add: P_def)
qed

section \<open>The scaling loop\<close>

lemma digits_of_nat_nonempty: "digits_of_nat n \<noteq> []"
  by (subst digits_of_nat.simps) simp

lemma length_fixed2: "4 \<le> length (fixed2 x)"
proof -
  have "1 \<le> length (digits_of_nat n)" for n
    using digits_of_nat_nonempty [of n] by (cases "digits_of_nat n") simp_all
  then show ?thesis
    by (simp add: fixed2_def Let_def Suc_le_eq)
qed

lemma format_f2_float: "width \<le> 4 \<Longrightarrow> format_f2 width (PyFloat x) = Inr (fixed2 x)"
  using length_fixed2 [of x] by (simp add: format_f2_def to_float_def Let_def)

lemma scale_loop_float_hit:
  assumes "j < length ps" "\<bar>(scale_step order ^^ j) x\<bar> < order"
    and "\<forall>i<j. \<not> \<bar>(scale_step order ^^ i) x\<bar> < order"
  shows "scale_loop (PyFloat x) order sfx ps =
    Inr (fixed2 ((scale_step order ^^ j) x) @ ps ! j @ sfx)"
  using assms
proof (induction ps arbitrary: x j)
  case Nil
  then show ?case by simp
next
  case (Cons p ps)
  show ?case
  proof (cases j)
    case 0
    then show ?thesis
      using Cons.prems(2) by (simp add: abs_lt_def format_f2_float)
  next
    case (Suc j')
    have n0: "\<not> \<bar>x\<bar> < order"
      using Cons.prems(3) Suc by (auto dest: spec [of _ 0])
    have a: "j' < length ps" using Cons.prems(1) Suc by simp
    have b: "\<bar>(scale_step order ^^ j') (scale_step order x)\<bar> < order"
      using Cons.prems(2) Suc by (simp add: funpow_swap1)
    have c: "\<forall>i<j'. \<not> \<bar>(scale_step order ^^ i) (scale_step order x)\<bar> < order"
    proof (intro allI impI)
      fix i assume "i < j'"
      then have "Suc i < j" using Suc by simp
      then have "\<not> \<bar>(scale_step order ^^ Suc i) x\<bar> < order"
        using Cons.prems(3) by blast
      then show "\<not> \<bar>(scale_step order ^^ i) (scale_step order x)\<bar> < order"
        by (simp add: funpow_swap1)
    qed
    show ?thesis
      using Cons.IH [OF a b c] n0 Suc
      by (simp add: abs_lt_def truediv_def to_float_def funpow_swap1 scale_step_def [symmetric])
  qed
qed

lemma scale_loop_float_miss:
  assumes "\<forall>i<length ps. \<not> \<bar>(scale_step order ^^ i) x\<bar> < order"
  shows "scale_loop (PyFloat x) order sfx ps =
    Inr (fixed2 ((scale_step order ^^ length ps) x) @ ''Y'' @ sfx)"
  using assms
proof (induction ps arbitrary: x)
  case Nil
  then show ?case by (simp add: format_f2_float)
next
  case (Cons p ps)
  have n0: "\<not> \<bar>x\<bar> < order"
    using Cons.prems by (auto dest: spec [of _ 0])
  have c: "\<forall>i<length ps. \<not> \<bar>(scale_step order ^^ i) (scale_step order x)\<bar> < order"
  proof (intro allI impI)
    fix i assume "i < length ps"
    then have "Suc i < length (p # ps)" by simp
    then have "\<not> \<bar>(scale_step order ^^ Suc i) x\<bar> < order"
      using Cons.prems by blast
    then show "\<not> \<bar>(scale_step order ^^ i) (scale_step order x)\<bar> < order"
      by (simp add: funpow_swap1)
  qed
  show ?case
    using Cons.IH [OF c] n0
    by (simp add: abs_lt_def truediv_def to_float_def funpow_swap1 scale_step_def [symmetric])
qed

lemma rne_max: "rne (2 ^ 1024 - 2 ^ 970 - 1) = 2 ^ 1024 - 2 ^ 971"
  using rne_eqI [of 1023 "2 ^ 1024 - 2 ^ 970 - 1" 9007199254740991] by simp

lemma float_of_int_ok:
  assumes "\<bar>n\<bar> < 2 ^ 1024 - 2 ^ 970"
  shows "float_of_int n = Inr (rne (of_int n))"
proof -
  define B :: int where "B = 2 ^ 1024 - 2 ^ 970 - 1"
  have B: "(of_int B :: rat) = 2 ^ 1024 - 2 ^ 970 - 1"
    by (simp add: B_def)
  have "n \<le> B" "- B \<le> n"
    using assms by (simp_all add: B_def)
  then have "(of_int n :: rat) \<le> of_int B" "- (of_int B :: rat) \<le> of_int n"
    by (simp_all only: of_int_le_iff of_int_minus [symmetric])
  then have "rne (of_int n) \<le> rne (of_int B)" "rne (- of_int B) \<le> rne (of_int n)"
    by (simp_all only: rne_mono)
  then have "rne (of_int n) \<le> 2 ^ 1024 - 2 ^ 971" "- (2 ^ 1024 - 2 ^ 971) \<le> rne (of_int n)"
    unfolding rne_minus B rne_max by simp_all
  then have "\<bar>rne (of_int n)\<bar> < 2 ^ 1024"
    by (simp add: abs_less_iff)
  then show ?thesis
    by (simp add: float_of_int_def Let_def not_le [symmetric])
qed

lemma scale_step_minus: "scale_step order (- x) = - scale_step order x"
  by (simp add: scale_step_def rne_minus)

lemma scale_step_mono: "0 < order \<Longrightarrow> x \<le> y \<Longrightarrow> scale_step order x \<le> scale_step order y"
  unfolding scale_step_def by (intro rne_mono divide_right_mono) simp_all

lemma funpow_scale_step_minus:
  "(scale_step order ^^ k) (- x) = - (scale_step order ^^ k) x"
  by (induction k) (simp_all add: scale_step_minus)

lemma funpow_scale_step_mono:
  "0 < order \<Longrightarrow> x \<le> y \<Longrightarrow> (scale_step order ^^ k) x \<le> (scale_step order ^^ k) y"
  by (induction k) (simp_all add: scale_step_mono)

lemma scaled_minus: "scaled order (- n) k = - scaled order n k"
  by (simp add: scaled_def rne_minus funpow_scale_step_minus)

lemma scaled_mono:
  assumes "0 < order" "n \<le> m"
  shows "scaled order n k \<le> scaled order m k"
proof -
  have "(of_int n :: rat) \<le> of_int m" using assms(2) by simp
  then have "rne (of_int n) \<le> rne (of_int m)" by (rule rne_mono)
  then have "(scale_step order ^^ k) (rne (of_int n)) \<le> (scale_step order ^^ k) (rne (of_int m))"
    using assms(1) by (intro funpow_scale_step_mono)
  then show ?thesis
    using assms(2) by (simp add: scaled_def)
qed

lemma scaled_Suc: "scaled order n (Suc k) = (scale_step order ^^ k) (scale_step order (rne (of_int n)))"
  by (simp add: scaled_def funpow_swap1)

lemma rne_si_0: "rne 1000000000000000000000000 = 999999999999999983222784"
  using rne_eqI [of 79 "1000000000000000000000000" 7450580596923828] by simp

lemma step_si_1: "scale_step 1000 999999999999999983222784 = 1000000000000000000000"
  unfolding scale_step_def
  using rne_eqI [of 69 "999999999999999983222784 / 1000" 7629394531250000] by simp

lemma step_si_2: "scale_step 1000 1000000000000000000000 = 1000000000000000000"
  unfolding scale_step_def
  using rne_eqI [of 59 "1000000000000000000000 / 1000" 7812500000000000] by simp

lemma step_si_3: "scale_step 1000 1000000000000000000 = 1000000000000000"
  unfolding scale_step_def
  using rne_eqI [of 49 "1000000000000000000 / 1000" 8000000000000000] by simp

lemma step_si_4: "scale_step 1000 1000000000000000 = 1000000000000"
  unfolding scale_step_def
  using rne_eqI [of 39 "1000000000000000 / 1000" 8192000000000000] by simp

lemma step_si_5: "scale_step 1000 1000000000000 = 1000000000"
  unfolding scale_step_def
  using rne_eqI [of 29 "1000000000000 / 1000" 8388608000000000] by simp

lemma step_si_6: "scale_step 1000 1000000000 = 1000000"
  unfolding scale_step_def
  using rne_eqI [of 19 "1000000000 / 1000" 8589934592000000] by simp

lemma step_si_7: "scale_step 1000 1000000 = 1000"
  unfolding scale_step_def
  using rne_eqI [of 9 "1000000 / 1000" 8796093022208000] by simp

lemma si_boundary:
  assumes "j < 8"
  shows "1000 \<le> scaled 1000 1000000000000000000000000 j"
  using assms
  by (auto simp: less_Suc_eq eval_nat_numeral scaled_def rne_si_0 step_si_1 step_si_2 step_si_3 step_si_4 step_si_5 step_si_6 step_si_7)

lemma rne_bin_0: "rne 1208925819614629174706176 = 1208925819614629174706176"
  using rne_eqI [of 80 "1208925819614629174706176" 4503599627370496] by simp

lemma step_bin_1: "scale_step 1024 1208925819614629174706176 = 1180591620717411303424"
  unfolding scale_step_def
  using rne_eqI [of 70 "1208925819614629174706176 / 1024" 4503599627370496] by simp

lemma step_bin_2: "scale_step 1024 1180591620717411303424 = 1152921504606846976"
  unfolding scale_step_def
  using rne_eqI [of 60 "1180591620717411303424 / 1024" 4503599627370496] by simp

lemma step_bin_3: "scale_step 1024 1152921504606846976 = 1125899906842624"
  unfolding scale_step_def
  using rne_eqI [of 50 "1152921504606846976 / 1024" 4503599627370496] by simp

lemma step_bin_4: "scale_step 1024 1125899906842624 = 1099511627776"
  unfolding scale_step_def
  using rne_eqI [of 40 "1125899906842624 / 1024" 4503599627370496] by simp

lemma step_bin_5: "scale_step 1024 1099511627776 = 1073741824"
  unfolding scale_step_def
  using rne_eqI [of 30 "1099511627776 / 1024" 4503599627370496] by simp

lemma step_bin_6: "scale_step 1024 1073741824 = 1048576"
  unfolding scale_step_def
  using rne_eqI [of 20 "1073741824 / 1024" 4503599627370496] by simp

lemma step_bin_7: "scale_step 1024 1048576 = 1024"
  unfolding scale_step_def
  using rne_eqI [of 10 "1048576 / 1024" 4503599627370496] by simp

lemma bin_boundary:
  assumes "j < 8"
  shows "1024 \<le> scaled 1024 1208925819614629174706176 j"
  using assms
  by (auto simp: less_Suc_eq eval_nat_numeral scaled_def rne_bin_0 step_bin_1 step_bin_2 step_bin_3 step_bin_4 step_bin_5 step_bin_6 step_bin_7)

lemma scale_loop_int_small:
  assumes "of_int \<bar>n\<bar> < order" "order \<le> 1024"
  shows "scale_loop (PyInt n) order sfx (p # ps) = Inr (fixed2 (of_int n) @ p @ sfx)"
proof -
  have "(of_int \<bar>n\<bar> :: rat) < of_int 1024"
    using assms by simp
  then have n: "\<bar>n\<bar> < 1024"
    by (simp only: of_int_less_iff)
  then have "\<bar>n\<bar> < 2 ^ 53" "\<bar>n\<bar> < 2 ^ 1024 - 2 ^ 970"
    by simp_all
  then have "float_of_int n = Inr (of_int n)"
    using float_of_int_ok [of n] rne_of_int_exact [of n] by simp
  then have "format_f2 3 (PyInt n) = Inr (fixed2 (of_int n))"
    using length_fixed2 [of "of_int n"] by (simp add: format_f2_def to_float_def Let_def)
  then show ?thesis
    using assms(1) by (simp add: abs_lt_def)
qed

lemma scale_loop_int_big:
  assumes "\<not> of_int \<bar>n\<bar> < order" "\<bar>n\<bar> < 2 ^ 1024 - 2 ^ 970"
  shows "scale_loop (PyInt n) order sfx (p # ps) =
    scale_loop (PyFloat (scale_step order (rne (of_int n)))) order sfx ps"
  using assms(1) float_of_int_ok [OF assms(2)]
  by (simp add: abs_lt_def truediv_def to_float_def scale_step_def)

lemma scale_loop_int_hit:
  assumes "order \<le> 1024" "\<bar>n\<bar> < 2 ^ 1024 - 2 ^ 970"
    and "k < length ps" "\<bar>scaled order n k\<bar> < order"
    and "\<forall>j<k. \<not> \<bar>scaled order n j\<bar> < order"
  shows "scale_loop (PyInt n) order sfx ps = Inr (fixed2 (scaled order n k) @ ps ! k @ sfx)"
proof (cases ps)
  case Nil
  then show ?thesis using assms(3) by simp
next
  case (Cons p ps')
  show ?thesis
  proof (cases k)
    case 0
    then have "of_int \<bar>n\<bar> < order"
      using assms(4) by (simp add: scaled_def)
    then have "scale_loop (PyInt n) order sfx (p # ps') = Inr (fixed2 (of_int n) @ p @ sfx)"
      using assms(1) by (rule scale_loop_int_small)
    then show ?thesis
      unfolding Cons 0 by (simp add: scaled_def)
  next
    case (Suc k')
    have "\<not> \<bar>scaled order n 0\<bar> < order"
      using assms(5) Suc by blast
    then have big: "\<not> of_int \<bar>n\<bar> < order"
      by (simp add: scaled_def)
    let ?x = "scale_step order (rne (of_int n))"
    have a: "k' < length ps'" using assms(3) Suc Cons by simp
    have b: "\<bar>(scale_step order ^^ k') ?x\<bar> < order"
      using assms(4) unfolding Suc scaled_Suc .
    have c: "\<forall>i<k'. \<not> \<bar>(scale_step order ^^ i) ?x\<bar> < order"
    proof (intro allI impI)
      fix i assume "i < k'"
      then have "Suc i < k" using Suc by simp
      then have "\<not> \<bar>scaled order n (Suc i)\<bar> < order"
        using assms(5) by blast
      then show "\<not> \<bar>(scale_step order ^^ i) ?x\<bar> < order"
        unfolding scaled_Suc .
    qed
    have "scale_loop (PyInt n) order sfx ps = scale_loop (PyFloat ?x) order sfx ps'"
      unfolding Cons using big assms(2) by (rule scale_loop_int_big)
    also have "\<dots> = Inr (fixed2 ((scale_step order ^^ k') ?x) @ ps' ! k' @ sfx)"
      using a b c by (rule scale_loop_float_hit)
    finally show ?thesis
      using Suc Cons by (simp add: scaled_Suc)
  qed
qed

lemma scale_loop_int_miss:
  assumes "\<bar>n\<bar> < 2 ^ 1024 - 2 ^ 970" "ps \<noteq> []"
    and "\<forall>j<length ps. \<not> \<bar>scaled order n j\<bar> < order"
  shows "scale_loop (PyInt n) order sfx ps =
    Inr (fixed2 (scaled order n (length ps)) @ ''Y'' @ sfx)"
proof -
  obtain p ps' where Cons: "ps = p # ps'"
    using assms(2) by (cases ps) simp_all
  have "\<not> \<bar>scaled order n 0\<bar> < order"
    using assms(3) Cons by auto
  then have big: "\<not> of_int \<bar>n\<bar> < order"
    by (simp add: scaled_def)
  let ?x = "scale_step order (rne (of_int n))"
  have c: "\<forall>i<length ps'. \<not> \<bar>(scale_step order ^^ i) ?x\<bar> < order"
  proof (intro allI impI)
    fix i assume "i < length ps'"
    then have "Suc i < length ps" using Cons by simp
    then have "\<not> \<bar>scaled order n (Suc i)\<bar> < order"
      using assms(3) by blast
    then show "\<not> \<bar>(scale_step order ^^ i) ?x\<bar> < order"
      unfolding scaled_Suc .
  qed
  have "scale_loop (PyInt n) order sfx ps = scale_loop (PyFloat ?x) order sfx ps'"
    unfolding Cons using big assms(1) by (rule scale_loop_int_big)
  also have "\<dots> = Inr (fixed2 ((scale_step order ^^ length ps') ?x) @ ''Y'' @ sfx)"
    using c by (rule scale_loop_float_miss)
  finally show ?thesis
    using Cons by (simp add: scaled_Suc)
qed

lemma beyond_ladder:
  assumes b: "\<And>j. j < 8 \<Longrightarrow> order \<le> scaled order N j"
    and o: "0 < order" and n: "N \<le> \<bar>n\<bar>" and j: "j < 8"
  shows "\<not> \<bar>scaled order n j\<bar> < order"
proof (cases "0 \<le> n")
  case True
  then have "N \<le> n" using n by simp
  then have "scaled order N j \<le> scaled order n j"
    using o by (intro scaled_mono)
  then show ?thesis using b [OF j] by linarith
next
  case False
  then have "N \<le> - n" using n by simp
  then have "scaled order N j \<le> scaled order (- n) j"
    using o by (intro scaled_mono)
  then have "scaled order n j \<le> - order"
    using b [OF j] by (simp add: scaled_minus)
  then show ?thesis using o by linarith
qed

section \<open>Formatting a byte count, verified\<close>

text \<open>
  C6. For every \<^verbatim>\<open>units\<close> other than \<^verbatim>\<open>SI\<close> and \<^verbatim>\<open>binary\<close>, \<^verbatim>\<open>format_byte_size\<close>
  raises \<^verbatim>\<open>ValueError\<close>, whatever the byte count, and returns no string.
\<close>

theorem format_byte_size_invalid_units:
  "units \<noteq> ''SI'' \<Longrightarrow> units \<noteq> ''binary'' \<Longrightarrow> format_byte_size byte_size units = Inl ValueError"
  by (simp add: format_byte_size_def)

theorem format_byte_size_invalid_units_witness:
  "format_byte_size 2048 ''si'' = Inl ValueError \<and> format_byte_size 2048 '''' = Inl ValueError"
  using format_byte_size_invalid_units [of "''si''" 2048]
    format_byte_size_invalid_units [of "''''" 2048]
  by simp

lemma format_byte_size_conv:
  assumes "units = ''SI'' \<and> order = 1000 \<and> sfx = ''B'' \<or>
           units = ''binary'' \<and> order = 1024 \<and> sfx = ''iB''"
  shows "format_byte_size byte_size units =
    scale_loop (PyInt byte_size) order sfx ['''', ''K'', ''M'', ''G'', ''T'', ''P'', ''E'', ''Z'']"
    and "0 < order" and "order \<le> 1024"
  using assms by (auto simp: format_byte_size_def)

text \<open>
  C5, as the code has it. For every byte count whose magnitude is below
  \<open>2\<^sup>1\<^sup>0\<^sup>2\<^sup>4 - 2\<^sup>9\<^sup>7\<^sup>0\<close>, the integers that convert to a float, \<^verbatim>\<open>format_byte_size\<close> with
  units \<^verbatim>\<open>SI\<close> divides repeatedly by 1000 and returns the value, formatted to two
  decimals, with the first prefix of the ladder \<^verbatim>\<open>"", K, M, G, T, P, E, Z\<close> for which the
  scaled magnitude is below 1000, and the suffix \<^verbatim>\<open>B\<close>; with units \<^verbatim>\<open>binary\<close> it does
  the same with 1024 and the suffix \<^verbatim>\<open>iB\<close>; when no scaled magnitude of the ladder is
  below the divisor, which is so whenever the magnitude is at least the eighth power of
  the divisor, the prefix is \<^verbatim>\<open>Y\<close>.
\<close>

theorem format_byte_size_ladder:
  assumes conv: "units = ''SI'' \<and> order = 1000 \<and> sfx = ''B'' \<or>
                 units = ''binary'' \<and> order = 1024 \<and> sfx = ''iB''"
    and rng: "\<bar>byte_size\<bar> < 2 ^ 1024 - 2 ^ 970"
  shows "(\<forall>k<8. \<bar>scaled order byte_size k\<bar> < order \<and>
              (\<forall>j<k. \<not> \<bar>scaled order byte_size j\<bar> < order) \<longrightarrow>
            format_byte_size byte_size units =
              Inr (fixed2 (scaled order byte_size k) @
                   ['''', ''K'', ''M'', ''G'', ''T'', ''P'', ''E'', ''Z''] ! k @ sfx))
         \<and> ((\<forall>j<8. \<not> \<bar>scaled order byte_size j\<bar> < order) \<longrightarrow>
            format_byte_size byte_size units =
              Inr (fixed2 (scaled order byte_size 8) @ ''Y'' @ sfx))
         \<and> (order ^ 8 \<le> of_int \<bar>byte_size\<bar> \<longrightarrow>
            format_byte_size byte_size units =
              Inr (fixed2 (scaled order byte_size 8) @ ''Y'' @ sfx))"
proof -
  let ?ps = "['''', ''K'', ''M'', ''G'', ''T'', ''P'', ''E'', ''Z'']"
  note c1 = format_byte_size_conv(1) [OF conv] and c3 = format_byte_size_conv(3) [OF conv]
  have hit: "format_byte_size byte_size units =
      Inr (fixed2 (scaled order byte_size k) @ ?ps ! k @ sfx)"
    if "k < 8" "\<bar>scaled order byte_size k\<bar> < order"
      "\<forall>j<k. \<not> \<bar>scaled order byte_size j\<bar> < order" for k
  proof -
    have "k < length ?ps" using that(1) by simp
    then show ?thesis
      unfolding c1 using that(2,3) by (intro scale_loop_int_hit [OF c3 rng])
  qed
  have miss: "format_byte_size byte_size units =
      Inr (fixed2 (scaled order byte_size 8) @ ''Y'' @ sfx)"
    if "\<forall>j<8. \<not> \<bar>scaled order byte_size j\<bar> < order"
  proof -
    have len: "length ?ps = 8" by simp
    have ne: "?ps \<noteq> []" by simp
    have all: "\<forall>j<length ?ps. \<not> \<bar>scaled order byte_size j\<bar> < order"
      unfolding len using that .
    have "scale_loop (PyInt byte_size) order sfx ?ps =
        Inr (fixed2 (scaled order byte_size (length ?ps)) @ ''Y'' @ sfx)"
      using rng ne all by (rule scale_loop_int_miss)
    then show ?thesis
      unfolding c1 len .
  qed
  have beyond: "\<forall>j<8. \<not> \<bar>scaled order byte_size j\<bar> < order"
    if big: "order ^ 8 \<le> of_int \<bar>byte_size\<bar>"
  proof (intro allI impI)
    fix j :: nat assume j: "j < 8"
    from conv show "\<not> \<bar>scaled order byte_size j\<bar> < order"
    proof (elim disjE conjE)
      assume o: "order = 1000"
      have "(of_int 1000000000000000000000000 :: rat) \<le> of_int \<bar>byte_size\<bar>"
        using big o by simp
      then have "1000000000000000000000000 \<le> \<bar>byte_size\<bar>"
        by (simp only: of_int_le_iff)
      then show ?thesis
        unfolding o using j by (intro beyond_ladder [of 1000 1000000000000000000000000] si_boundary) simp_all
    next
      assume o: "order = 1024"
      have "(of_int 1208925819614629174706176 :: rat) \<le> of_int \<bar>byte_size\<bar>"
        using big o by simp
      then have "1208925819614629174706176 \<le> \<bar>byte_size\<bar>"
        by (simp only: of_int_le_iff)
      then show ?thesis
        unfolding o using j by (intro beyond_ladder [of 1024 1208925819614629174706176] bin_boundary) simp_all
    qed
  qed
  show ?thesis
    using hit miss beyond by blast
qed

theorem format_byte_size_ladder_witness:
  "format_byte_size 1536 ''binary'' = Inr ''1.50KiB''
   \<and> format_byte_size 1000000000000000000000000 ''SI'' = Inr ''1.00YB''"
proof -
  have r: "rne 1536 = 1536"
    using rne_eqI [of 10 1536 6755399441055744] by simp
  have s: "scale_step 1024 1536 = 3 / 2"
    unfolding scale_step_def using rne_eqI [of 0 "1536 / 1024" 6755399441055744] by simp
  have f: "fixed2 (3 / 2) = ''1.50''"
    by code_simp
  have s0: "scaled 1024 1536 0 = 1536" and s1: "scaled 1024 1536 (Suc 0) = 3 / 2"
    by (simp_all add: scaled_def r s)
  have a: "\<bar>scaled 1024 1536 (Suc 0)\<bar> < 1024 \<and> (\<forall>j<Suc 0. \<not> \<bar>scaled 1024 1536 j\<bar> < 1024)"
    by (simp add: s0 s1)
  have rng: "\<bar>1536 :: int\<bar> < 2 ^ 1024 - 2 ^ 970"
    by simp
  have conv: "''binary'' = ''SI'' \<and> (1024::rat) = 1000 \<and> ''iB'' = ''B'' \<or>
      ''binary'' = ''binary'' \<and> (1024::rat) = 1024 \<and> ''iB'' = ''iB''"
    by simp
  have b: "format_byte_size 1536 ''binary'' = Inr ''1.50KiB''"
    using format_byte_size_ladder [OF conv rng, THEN conjunct1, rule_format, of "Suc 0"] a
    by (simp add: s1 f)
  have t: "scale_step 1000 1000 = 1"
    unfolding scale_step_def using rne_eqI [of 0 "1000 / 1000" 4503599627370496] by simp
  have s8: "scaled 1000 1000000000000000000000000 8 = 1"
    by (simp add: scaled_def eval_nat_numeral rne_si_0 step_si_1 step_si_2 step_si_3 step_si_4
        step_si_5 step_si_6 step_si_7 t)
  have g: "fixed2 1 = ''1.00''"
    by code_simp
  have rng2: "\<bar>1000000000000000000000000 :: int\<bar> < 2 ^ 1024 - 2 ^ 970"
    by simp
  have conv2: "''SI'' = ''SI'' \<and> (1000::rat) = 1000 \<and> ''B'' = ''B'' \<or>
      ''SI'' = ''binary'' \<and> (1000::rat) = 1024 \<and> ''B'' = ''iB''"
    by simp
  have c: "format_byte_size 1000000000000000000000000 ''SI'' = Inr ''1.00YB''"
    using format_byte_size_ladder [OF conv2 rng2, THEN conjunct2, THEN conjunct2, rule_format]
    by (simp add: s8 g)
  show ?thesis using b c by simp
qed

text \<open>
  The integers of the host language are unbounded, its floats are not: the first
  division converts the byte count to a float, and \<open>2\<^sup>1\<^sup>0\<^sup>2\<^sup>4\<close> does not convert.
\<close>

theorem format_byte_size_overflow_counterexample:
  "format_byte_size (2 ^ 1024) ''SI'' = Inl OverflowError"
proof -
  have "rne (2 ^ 1024) = 2 ^ 1024"
    using rne_eqI [of 1024 "2 ^ 1024" 4503599627370496] by simp
  then have "float_of_int (2 ^ 1024) = Inl OverflowError"
    by (simp add: float_of_int_def Let_def)
  then show ?thesis
    by (simp add: format_byte_size_def abs_lt_def truediv_def to_float_def)
qed

section \<open>Numeric series, verified\<close>

text \<open>
  The differences of a series, the sorting inside \<^verbatim>\<open>np.unique\<close>, and the sign of a
  rounded difference: rounding never turns a negative number into a positive one, and it
  keeps the difference of two distinct binary64 numbers away from zero, because that
  difference is a multiple of \<open>2\<^sup>-\<^sup>1\<^sup>0\<^sup>7\<^sup>4\<close>.
\<close>

lemma length_np_diff: "length (np_diff a) = length a - 1"
  by (simp add: np_diff_def)

lemma np_diff_nth: "i < length a - 1 \<Longrightarrow> np_diff a ! i = fsub (a ! Suc i) (a ! i)"
  by (simp add: np_diff_def nth_tl)

lemma np_diff_short:
  assumes "length a < 2"
  shows "np_diff a = []"
proof -
  have "length (np_diff a) = 0"
    using assms by (simp add: length_np_diff)
  then show ?thesis by simp
qed

lemma set_insort64: "set (insort64 x ys) = insert x (set ys)"
  by (induction ys) auto

lemma set_np_sort: "set (np_sort ys) = set ys"
  unfolding np_sort_def by (induction ys) (simp_all add: set_insort64)

lemma np_sort_Nil_iff: "np_sort ys = [] \<longleftrightarrow> ys = []"
  using set_np_sort [of ys] by (metis set_empty)

lemma length_np_unique_one:
  "length (np_unique ys) = 1 \<longleftrightarrow> ys \<noteq> [] \<and> (\<forall>a \<in> set ys. \<forall>b \<in> set ys. a = b)"
proof -
  let ?xs = "np_sort ys"
  have "length (remdups_adj ?xs) = Suc 0 \<longleftrightarrow> ?xs \<noteq> [] \<and> ?xs = replicate (length ?xs) (hd ?xs)"
    by (rule remdups_adj_singleton_iff)
  also have "\<dots> \<longleftrightarrow> ys \<noteq> [] \<and> (\<forall>a \<in> set ys. \<forall>b \<in> set ys. a = b)"
  proof
    assume h: "?xs \<noteq> [] \<and> ?xs = replicate (length ?xs) (hd ?xs)"
    then have ne: "ys \<noteq> []" by (simp add: np_sort_Nil_iff)
    have "set ?xs = set (replicate (length ?xs) (hd ?xs))"
      using h by simp
    then have "set ys \<subseteq> {hd ?xs}"
      by (simp add: set_np_sort set_replicate_conv_if split: if_splits)
    then show "ys \<noteq> [] \<and> (\<forall>a \<in> set ys. \<forall>b \<in> set ys. a = b)"
      using ne by auto
  next
    assume h: "ys \<noteq> [] \<and> (\<forall>a \<in> set ys. \<forall>b \<in> set ys. a = b)"
    then have ne: "?xs \<noteq> []" by (simp add: np_sort_Nil_iff)
    then have "hd ?xs \<in> set ?xs" by (rule hd_in_set)
    then have "hd ?xs \<in> set ys" by (simp add: set_np_sort)
    then have "\<forall>y \<in> set ?xs. y = hd ?xs"
      using h by (auto simp: set_np_sort)
    then have "replicate (length ?xs) (hd ?xs) = ?xs"
      by (rule replicate_length_same)
    then show "?xs \<noteq> [] \<and> ?xs = replicate (length ?xs) (hd ?xs)"
      using ne by simp
  qed
  finally show ?thesis
    by (simp add: np_unique_def)
qed

lemma rne64_nonpos:
  assumes "x \<le> 0"
  shows "rne64 x \<le> 0"
proof (cases "\<bar>x\<bar> < 2 powi (- 1022)")
  case True
  have "x / 2 powi (- 1074) \<le> of_int 0"
    using assms by (simp add: divide_nonpos_pos)
  then have "rint (x / 2 powi (- 1074)) \<le> 0"
    by (rule rint_le)
  then have "(of_int (rint (x / 2 powi (- 1074))) :: rat) \<le> 0"
    by simp
  then have "of_int (rint (x / 2 powi (- 1074))) * (2 :: rat) powi (- 1074) \<le> 0"
    by (simp add: mult_le_0_iff)
  then show ?thesis using True by (simp add: rne64_def)
next
  case False
  have "rne x \<le> rne 0" using assms by (rule rne_mono)
  then show ?thesis using False by (simp add: rne64_def)
qed

lemma rne64_pos_grid:
  assumes "2 powi (- 1074) \<le> x"
  shows "0 < rne64 x"
proof (cases "\<bar>x\<bar> < 2 powi (- 1022)")
  case True
  have "of_int 1 \<le> x / 2 powi (- 1074)"
    using assms by (simp add: le_divide_eq)
  then have "1 \<le> rint (x / 2 powi (- 1074))"
    by (rule rint_ge)
  then have "(0 :: rat) < of_int (rint (x / 2 powi (- 1074)))"
    by simp
  then have "0 < of_int (rint (x / 2 powi (- 1074))) * (2 :: rat) powi (- 1074)"
    by (simp add: zero_less_mult_iff)
  then show ?thesis using True by (simp add: rne64_def)
next
  case False
  have "(0 :: rat) < 2 powi (- 1074)" by simp
  then have "0 < x" using assms by (rule less_le_trans)
  then have "0 < rne x" by (rule rne_pos)
  then show ?thesis using False by (simp add: rne64_def)
qed

lemma round64_Finite_D: "round64 x = Finite y \<Longrightarrow> rne64 x = y"
  by (simp add: round64_def Let_def split: if_splits)

lemma float64_grid:
  assumes "round64 x = Finite x"
  shows "\<exists>k :: int. x = of_int k * 2 powi (- 1074)"
proof -
  have r: "rne64 x = x" using assms by (rule round64_Finite_D)
  show ?thesis
  proof (cases "\<bar>x\<bar> < 2 powi (- 1022)")
    case True
    then have "x = of_int (rint (x / 2 powi (- 1074))) * 2 powi (- 1074)"
      using r by (simp add: rne64_def)
    then show ?thesis ..
  next
    case False
    then have rx: "rne x = x" using r by (simp add: rne64_def)
    have x0: "x \<noteq> 0" using False by auto
    then have ax: "0 < \<bar>x\<bar>" by simp
    define e where "e = flog2 \<bar>x\<bar> - 52"
    have "(2 :: rat) powi (- 1022) \<le> \<bar>x\<bar>" using False by simp
    also have "\<bar>x\<bar> < 2 powi (flog2 \<bar>x\<bar> + 1)"
      using flog2_bounds [OF ax] by simp
    finally have "(2 :: rat) powi (- 1022) < 2 powi (flog2 \<bar>x\<bar> + 1)" .
    then have "- 1022 < flog2 \<bar>x\<bar> + 1"
      by (simp only: powi2_less_iff)
    then have e: "- 1074 \<le> e" by (simp add: e_def)
    have xe: "x = of_int (rint (x / 2 powi e)) * 2 powi e"
      using rx x0 by (simp add: rne_def Let_def e_def)
    define n where "n = nat (e + 1074)"
    have en: "e = int n + (- 1074)"
      using e by (simp add: n_def)
    have "(2 :: rat) powi (int n + (- 1074)) = 2 powi (int n) * 2 powi (- 1074)"
      by (rule power_int_add) simp
    also have "(2 :: rat) powi (int n) = 2 ^ n"
      by (rule power_int_of_nat)
    finally have pe: "(2 :: rat) powi e = 2 ^ n * 2 powi (- 1074)"
      unfolding en [symmetric] .
    have "x = of_int (rint (x / 2 powi e)) * (2 ^ n * 2 powi (- 1074))"
      using xe unfolding pe [symmetric] .
    then have "x = of_int (rint (x / 2 powi e) * 2 ^ n) * 2 powi (- 1074)"
      by (simp only: of_int_mult of_int_power of_int_numeral mult.assoc)
    then show ?thesis ..
  qed
qed

lemma float64_diff_grid:
  assumes a: "round64 a = Finite a" and b: "round64 b = Finite b" and "a < b"
  shows "2 powi (- 1074) \<le> b - a"
proof -
  obtain ka :: int where ka: "a = of_int ka * 2 powi (- 1074)"
    using float64_grid [OF a] by blast
  obtain kb :: int where kb: "b = of_int kb * 2 powi (- 1074)"
    using float64_grid [OF b] by blast
  have d: "b - a = of_int (kb - ka) * 2 powi (- 1074)"
    by (simp add: ka kb algebra_simps)
  have "0 < b - a" using assms(3) by simp
  then have "(0 :: rat) < of_int (kb - ka)"
    unfolding d by (simp add: zero_less_mult_iff)
  then have "1 \<le> kb - ka" by simp
  then have "(1 :: rat) \<le> of_int (kb - ka)" by linarith
  then have "1 * (2 :: rat) powi (- 1074) \<le> of_int (kb - ka) * 2 powi (- 1074)"
    by (rule mult_right_mono) simp
  then show ?thesis unfolding d by simp
qed

lemma flt_zero_round64: "flt (Finite 0) (round64 x) \<longleftrightarrow> 0 < rne64 x"
  by (simp add: round64_def Let_def)

lemma flt_irrefl: "\<not> flt a a"
  by (cases a) simp_all

lemma flt_fsub_imp:
  assumes "flt (Finite 0) (fsub b a)"
  shows "flt a b"
proof (cases a)
  case fa: (Finite x)
  show ?thesis
  proof (cases b)
    case fb: (Finite y)
    have "0 < rne64 (y - x)"
      using assms by (simp add: fa fb flt_zero_round64)
    then have "\<not> y - x \<le> 0"
      using rne64_nonpos [of "y - x"] by auto
    then show ?thesis by (simp add: fa fb)
  qed (use assms fa in simp_all)
qed (use assms in \<open>cases b; simp\<close>)+

lemma flt_fsub:
  assumes "is_float64 a" and "is_float64 b" and "flt a b"
  shows "flt (Finite 0) (fsub b a)"
proof (cases a)
  case fa: (Finite x)
  show ?thesis
  proof (cases b)
    case fb: (Finite y)
    have "2 powi (- 1074) \<le> y - x"
      using assms by (intro float64_diff_grid) (simp_all add: fa fb is_float64_def)
    then have "0 < rne64 (y - x)" by (rule rne64_pos_grid)
    then show ?thesis by (simp add: fa fb flt_zero_round64)
  qed (use assms fa in simp_all)
qed (use assms in \<open>cases b; simp\<close>)+

lemma rne64_normal: "2 powi (- 1022) \<le> \<bar>x\<bar> \<Longrightarrow> rne64 x = rne x"
  by (simp add: rne64_def)

lemma round64_eqI:
  assumes "2 powi k \<le> \<bar>x\<bar>" and "\<bar>x\<bar> < 2 powi (k + 1)" and "- 1022 \<le> k"
    and "\<bar>x - of_int m * 2 powi (k - 52)\<bar> < 2 powi (k - 52) / 2"
    and "\<bar>of_int m * 2 powi (k - 52)\<bar> < (2 ^ 1024 :: rat)"
  shows "round64 x = Finite (of_int m * 2 powi (k - 52))"
proof -
  have "(2 :: rat) powi (- 1022) \<le> 2 powi k"
    using assms(3) by (simp only: powi2_le_iff)
  then have "2 powi (- 1022) \<le> \<bar>x\<bar>"
    using assms(1) by (rule order_trans)
  then have "rne64 x = rne x" by (rule rne64_normal)
  also have "rne x = of_int m * 2 powi (k - 52)"
    using assms(1,2,4) by (rule rne_eqI)
  finally have r: "rne64 x = of_int m * 2 powi (k - 52)" .
  show ?thesis
    using assms(5) unfolding round64_def r Let_def by (auto simp: abs_less_iff)
qed

lemma round64_zero: "round64 0 = Finite 0"
proof -
  have "rint 0 = 0" using rint_of_int [of 0] by simp
  then show ?thesis by (simp add: round64_def rne64_def)
qed


lemma is_ascending_series_None:
  "is_ascending_series series None \<longleftrightarrow>
     (\<forall>i. Suc i < length series \<longrightarrow> flt (Finite 0) (fsub (series ! Suc i) (series ! i)))"
proof -
  have "is_ascending_series series None \<longleftrightarrow>
      (\<forall>i<length (np_diff series). flt (Finite 0) (np_diff series ! i))"
    by (simp add: is_ascending_series_def slice_to_def list_all_length)
  also have "\<dots> \<longleftrightarrow> (\<forall>i<length series - 1. flt (Finite 0) (fsub (series ! Suc i) (series ! i)))"
    by (simp add: length_np_diff np_diff_nth)
  also have "\<dots> \<longleftrightarrow>
      (\<forall>i. Suc i < length series \<longrightarrow> flt (Finite 0) (fsub (series ! Suc i) (series ! i)))"
    by (simp add: less_diff_conv)
  finally show ?thesis .
qed

lemma is_ascending_series_negative_nelems:
  "n < 0 \<Longrightarrow>
     is_ascending_series series (Some n) =
     is_ascending_series (take (length series - nat (- n)) series) None"
  by (simp add: is_ascending_series_def slice_to_def)

subsection \<open>Values of the rounding\<close>

text \<open>
  What \<^verbatim>\<open>round\<close> computes on some values: integers that it leaves alone, a number
  \<open>1 + 2\<^sup>-\<^sup>4\<^sup>0\<close> that nine decimals round to \<open>1\<close>, \<open>5/4\<close> that nine decimals keep and no
  decimals round to \<open>1\<close>, \<open>14\<close> that \<open>-1\<close> decimals round to \<open>10\<close>, and a number near
  \<open>10\<^sup>3\<^sup>0\<^sup>0\<close> whose scaling by \<open>10\<^sup>9\<close> overflows.
\<close>

lemma round64_1: "round64 1 = Finite 1"
  using round64_eqI [of 0 1 4503599627370496] by simp

lemma round64_2: "round64 2 = Finite 2"
  using round64_eqI [of 1 2 4503599627370496] by simp

lemma round64_3: "round64 3 = Finite 3"
  using round64_eqI [of 1 3 6755399441055744] by simp



lemma rint_numeral [simp]: "rint (numeral n) = numeral n"
  using rint_of_int [of "numeral n"] by simp

lemma rint_1 [simp]: "rint 1 = 1"
  using rint_of_int [of 1] by simp

















lemma power_of_ten_9: "power_of_ten 9 = Finite 1000000000"
  by (simp add: power_of_ten_def)


















subsection \<open>The range of the scaling factor\<close>

lemma rne_rel_bounds:
  assumes "0 < x"
  shows "x * (1 - 1 / 2 ^ 53) \<le> rne x" and "rne x \<le> x * (1 + 1 / 2 ^ 53)"
proof -
  define e where "e = flog2 x - 52"
  define P :: rat where "P = 2 powi e"
  have P: "0 < P" by (simp add: P_def)
  have r: "rne x = of_int (rint (x / P)) * P"
    using assms by (simp add: rne_def Let_def e_def P_def)
  have "flog2 x = e + 52" by (simp add: e_def)
  then have "(2 :: rat) powi (flog2 x) = 2 powi (e + 52)" by simp
  also have "\<dots> = P * 2 powi 52"
    unfolding P_def by (rule power_int_add) simp
  also have "\<dots> = P * 2 ^ 52" by simp
  finally have "P * 2 ^ 52 \<le> x"
    using flog2_bounds(1) [OF assms] by simp
  then have h: "P / 2 \<le> x / 2 ^ 53" by simp
  have n: "\<bar>of_int (rint (x / P)) - x / P\<bar> \<le> 1 / 2" by (rule rint_near)
  have "\<bar>of_int (rint (x / P)) - x / P\<bar> * P \<le> 1 / 2 * P"
    using n P by (intro mult_right_mono) simp_all
  moreover have "\<bar>of_int (rint (x / P)) - x / P\<bar> * P = \<bar>rne x - x\<bar>"
  proof -
    have "\<bar>of_int (rint (x / P)) - x / P\<bar> * P = \<bar>(of_int (rint (x / P)) - x / P) * P\<bar>"
      using P by (simp add: abs_mult)
    also have "(of_int (rint (x / P)) - x / P) * P = rne x - x"
      using P by (simp add: r left_diff_distrib)
    finally show ?thesis .
  qed
  ultimately have "\<bar>rne x - x\<bar> \<le> x / 2 ^ 53"
    using h by simp
  then have a: "rne x - x \<le> x / 2 ^ 53" and b: "- (rne x - x) \<le> x / 2 ^ 53"
    by (rule abs_le_D1, rule abs_le_D2)
  have e1: "x * (1 - 1 / 2 ^ 53) = x - x / 2 ^ 53"
    by (simp only: right_diff_distrib mult_1_right times_divide_eq_right)
  have e2: "x * (1 + 1 / 2 ^ 53) = x + x / 2 ^ 53"
    by (simp only: distrib_left mult_1_right times_divide_eq_right)
  show "x * (1 - 1 / 2 ^ 53) \<le> rne x"
    unfolding e1 using b by linarith
  show "rne x \<le> x * (1 + 1 / 2 ^ 53)"
    unfolding e2 using a by linarith
qed

lemma bernoulli_lower:
  fixes a :: rat
  assumes "0 \<le> a" and "a \<le> 1"
  shows "1 - of_nat k * a \<le> (1 - a) ^ k"
proof (induction k)
  case 0
  show ?case by simp
next
  case (Suc k)
  have "1 - of_nat (Suc k) * a \<le> (1 - of_nat k * a) * (1 - a)"
  proof -
    have "(1 - of_nat k * a) * (1 - a) = 1 - of_nat (Suc k) * a + of_nat k * (a * a)"
      by (simp add: algebra_simps)
    moreover have "0 \<le> of_nat k * (a * a)"
      using assms(1) by simp
    ultimately show ?thesis by simp
  qed
  also have "\<dots> \<le> (1 - a) ^ k * (1 - a)"
    using Suc assms(2) by (intro mult_right_mono) simp_all
  finally show ?case by (simp add: mult.commute)
qed

lemma bernoulli_upper:
  fixes a :: rat
  assumes "0 \<le> a" and "2 * of_nat k * a \<le> 1"
  shows "(1 + a) ^ k \<le> 1 + 2 * of_nat k * a"
  using assms(2)
proof (induction k)
  case 0
  show ?case by simp
next
  case (Suc k)
  have le: "2 * of_nat k * a \<le> 1"
  proof -
    have "2 * of_nat k * a \<le> 2 * of_nat (Suc k) * a"
      using assms(1) by (intro mult_right_mono) simp_all
    then show ?thesis using Suc.prems by simp
  qed
  have "(1 + a) ^ Suc k = (1 + a) ^ k * (1 + a)" by simp
  also have "\<dots> \<le> (1 + 2 * of_nat k * a) * (1 + a)"
    using Suc.IH [OF le] assms(1) by (intro mult_right_mono) simp_all
  also have "\<dots> = 1 + 2 * of_nat k * a + a + (2 * of_nat k * a) * a"
    by (simp add: algebra_simps)
  also have "\<dots> \<le> 1 + 2 * of_nat k * a + a + 1 * a"
    using le assms(1) by (intro add_left_mono mult_right_mono)
  also have "\<dots> = 1 + 2 * of_nat (Suc k) * a"
    by (simp add: algebra_simps)
  finally show ?case .
qed

lemma power_of_ten_Suc:
  assumes "9 \<le> n"
  shows "power_of_ten (Suc n) = fmul (power_of_ten n) (Finite 10)"
proof -
  have "Suc n - 9 = Suc (n - 9)" using assms by simp
  then show ?thesis using assms by (simp add: power_of_ten_def)
qed

lemma rint_0 [simp]: "rint 0 = 0"
  using rint_of_int [of 0] by simp

lemma rne_1: "rne 1 = 1"
  using rne_eqI [of 0 1 4503599627370496] by simp

lemma rne64_ge_1: "1 \<le> x \<Longrightarrow> rne64 x = rne x"
proof (rule rne64_normal)
  assume x: "1 \<le> x"
  have "(- 1022 :: int) \<le> 0" by simp
  then have "(2 :: rat) powi (- 1022) \<le> 2 powi 0" by (simp only: powi2_le_iff)
  then have "(2 :: rat) powi (- 1022) \<le> 1" by simp
  then show "2 powi (- 1022) \<le> \<bar>x\<bar>" using x by linarith
qed

lemma round64_ge_1:
  assumes "1 \<le> x"
  shows "round64 x = (if 2 ^ 1024 \<le> rne x then PInf else Finite (rne x))"
proof -
  have "rne 1 \<le> rne x" using assms by (rule rne_mono)
  then have "1 \<le> rne x" by (simp add: rne_1)
  then have "\<not> rne x \<le> - (2 ^ 1024)" by simp
  then show ?thesis
    by (simp add: round64_def Let_def rne64_ge_1 [OF assms])
qed

text \<open>
  The powers of ten that \<^verbatim>\<open>round\<close> computes by repeated multiplication stay within
  a factor \<open>(1 \<plusminus> 2\<^sup>-\<^sup>5\<^sup>3)\<^sup>n\<^sup>-\<^sup>9\<close> of \<open>10\<^sup>n\<close> as long as they are finite.
\<close>

lemma power_of_ten_range:
  assumes "9 \<le> n"
  shows "power_of_ten n = PInf \<or>
    (\<exists>p. power_of_ten n = Finite p \<and> 1 \<le> p \<and> p < 2 ^ 1024 \<and>
       10 ^ n * (1 - 1 / 2 ^ 53) ^ (n - 9) \<le> p \<and> p \<le> 10 ^ n * (1 + 1 / 2 ^ 53) ^ (n - 9))"
  using assms
proof (induction n rule: dec_induct)
  case base
  have "power_of_ten 9 = Finite 1000000000" by (rule power_of_ten_9)
  then show ?case by simp
next
  case (step n)
  from step.IH show ?case
  proof
    assume "power_of_ten n = PInf"
    then have "power_of_ten (Suc n) = PInf"
      using step.hyps(1) by (simp add: power_of_ten_Suc)
    then show ?thesis ..
  next
    assume "\<exists>p. power_of_ten n = Finite p \<and> 1 \<le> p \<and> p < 2 ^ 1024 \<and>
       10 ^ n * (1 - 1 / 2 ^ 53) ^ (n - 9) \<le> p \<and> p \<le> 10 ^ n * (1 + 1 / 2 ^ 53) ^ (n - 9)"
    then obtain p where p: "power_of_ten n = Finite p" and p1: "1 \<le> p"
      and lo: "10 ^ n * (1 - 1 / 2 ^ 53) ^ (n - 9) \<le> p"
      and hi: "p \<le> 10 ^ n * (1 + 1 / 2 ^ 53) ^ (n - 9)"
      by blast
    have k: "Suc n - 9 = Suc (n - 9)" using step.hyps(1) by simp
    have q1: "1 \<le> p * 10" using p1 by simp
    have q0: "0 < p * 10" using p1 by simp
    have s: "power_of_ten (Suc n) = round64 (p * 10)"
      using step.hyps(1) by (simp add: power_of_ten_Suc p)
    show ?thesis
    proof (cases "2 ^ 1024 \<le> rne (p * 10)")
      case True
      then have "power_of_ten (Suc n) = PInf"
        by (simp add: s round64_ge_1 [OF q1])
      then show ?thesis ..
    next
      case False
      then have f: "power_of_ten (Suc n) = Finite (rne (p * 10))"
        by (simp add: s round64_ge_1 [OF q1])
      have "rne 1 \<le> rne (p * 10)" using q1 by (rule rne_mono)
      then have r1: "1 \<le> rne (p * 10)" by (simp add: rne_1)
      have r2: "rne (p * 10) < 2 ^ 1024" using False by simp
      have "10 ^ Suc n * (1 - 1 / 2 ^ 53) ^ (Suc n - 9) =
          (10 ^ n * (1 - 1 / 2 ^ 53) ^ (n - 9)) * 10 * (1 - 1 / 2 ^ 53 :: rat)"
        unfolding k by simp
      also have "\<dots> \<le> p * 10 * (1 - 1 / 2 ^ 53)"
        using lo by (intro mult_right_mono) simp_all
      also have "\<dots> \<le> rne (p * 10)"
        by (rule rne_rel_bounds(1) [OF q0])
      finally have r3: "10 ^ Suc n * (1 - 1 / 2 ^ 53) ^ (Suc n - 9) \<le> rne (p * 10)" .
      have "rne (p * 10) \<le> p * 10 * (1 + 1 / 2 ^ 53)"
        by (rule rne_rel_bounds(2) [OF q0])
      also have "\<dots> \<le> (10 ^ n * (1 + 1 / 2 ^ 53) ^ (n - 9)) * 10 * (1 + 1 / 2 ^ 53 :: rat)"
        using hi by (intro mult_right_mono) simp_all
      also have "\<dots> = 10 ^ Suc n * (1 + 1 / 2 ^ 53) ^ (Suc n - 9)"
        unfolding k by simp
      finally have r4: "rne (p * 10) \<le> 10 ^ Suc n * (1 + 1 / 2 ^ 53) ^ (Suc n - 9)" .
      show ?thesis using f r1 r2 r3 r4 by blast
    qed
  qed
qed

lemma power_of_ten_309: "power_of_ten 309 = PInf"
proof (rule ccontr)
  assume n: "power_of_ten 309 \<noteq> PInf"
  define c :: rat where "c = 1 - 1 / 2 ^ 53"
  have "9 \<le> (309 :: nat)" by simp
  from power_of_ten_range [OF this] n
  obtain p :: rat where hi: "p < 2 ^ 1024" and lo: "10 ^ 309 * c ^ (309 - 9) \<le> p"
    unfolding c_def by blast
  have k: "(309 :: nat) - 9 = 300" by simp
  have "(1 :: rat) - of_nat 300 * (1 / 2 ^ 53) \<le> (1 - 1 / 2 ^ 53) ^ 300"
    by (rule bernoulli_lower) simp_all
  then have b: "(1 :: rat) - of_nat 300 * (1 / 2 ^ 53) \<le> c ^ 300"
    unfolding c_def .
  have "(1 :: rat) / 2 \<le> 1 - of_nat 300 * (1 / 2 ^ 53)"
    by simp
  then have h: "1 / 2 \<le> c ^ 300"
    using b by (rule order_trans)
  have "(10 :: rat) ^ 309 * (1 / 2) \<le> 10 ^ 309 * c ^ 300"
    using h by (rule mult_left_mono) simp
  then have "(10 :: rat) ^ 309 * (1 / 2) \<le> p"
    using lo unfolding k by (rule order_trans)
  moreover have "(2 :: rat) ^ 1024 \<le> 10 ^ 309 * (1 / 2)"
    by simp
  ultimately have "2 ^ 1024 \<le> p"
    by (rule order_trans [rotated])
  then show False using hi by simp
qed

lemma power_of_ten_inf:
  assumes "309 \<le> n"
  shows "power_of_ten n = PInf"
  using assms
proof (induction n rule: dec_induct)
  case base
  show ?case by (rule power_of_ten_309)
next
  case (step n)
  then show ?case by (simp add: power_of_ten_Suc)
qed

lemma rne_3_1022: "rne (3 * 2 ^ 1022) = 3 * 2 ^ 1022"
  using rne_eqI [of 1023 "3 * 2 ^ 1022" 6755399441055744] by simp

lemma power_of_ten_growth:
  fixes u :: rat
  assumes "j \<le> 307" and u: "u = 1 + 1 / 2 ^ 53"
  shows "10 ^ j * u ^ (j - 9) * 10 \<le> 3 * 2 ^ 1022"
proof -
  have u0: "0 \<le> 1 / (2 :: rat) ^ 53" by simp
  have jj: "(of_nat (j - 9) :: rat) \<le> 307"
  proof -
    have "j - 9 \<le> 307" using assms(1) by simp
    then have "(of_nat (j - 9) :: rat) \<le> of_nat 307" by (simp only: of_nat_le_iff)
    then show ?thesis by simp
  qed
  have s: "2 * (of_nat (j - 9) :: rat) * (1 / 2 ^ 53) \<le> 2 * 307 * (1 / 2 ^ 53)"
    using jj by (intro mult_right_mono mult_left_mono) simp_all
  have t: "2 * 307 * (1 / 2 ^ 53) \<le> (1 / 100 :: rat)" by simp
  have st: "2 * (of_nat (j - 9) :: rat) * (1 / 2 ^ 53) \<le> 1 / 100"
    using s t by (rule order_trans)
  have "2 * (of_nat (j - 9) :: rat) * (1 / 2 ^ 53) \<le> 1"
    using st by linarith
  with u0 have "(1 + 1 / 2 ^ 53 :: rat) ^ (j - 9) \<le> 1 + 2 * of_nat (j - 9) * (1 / 2 ^ 53)"
    by (rule bernoulli_upper)
  then have c: "u ^ (j - 9) \<le> 101 / 100"
    unfolding u using st by linarith
  have u1: "0 \<le> u ^ (j - 9)" unfolding u by simp
  have p: "(10 :: rat) ^ j \<le> 10 ^ 307"
    using assms(1) by (intro power_increasing) simp_all
  have "(10 :: rat) ^ j * u ^ (j - 9) \<le> 10 ^ 307 * (101 / 100)"
    using p c u1 by (intro mult_mono) simp_all
  then have "(10 :: rat) ^ j * u ^ (j - 9) * 10 \<le> 10 ^ 307 * (101 / 100) * 10"
    by (rule mult_right_mono) simp
  also have "\<dots> \<le> 3 * 2 ^ 1022" by simp
  finally show ?thesis .
qed

lemma power_of_ten_finite_ge9:
  assumes "9 \<le> n" and "n \<le> 308"
  shows "\<exists>p. power_of_ten n = Finite p \<and> 1 \<le> p \<and>
    p \<le> 10 ^ n * (1 + 1 / 2 ^ 53) ^ (n - 9)"
  using assms
proof (induction n rule: dec_induct)
  case base
  have "power_of_ten 9 = Finite 1000000000" by (rule power_of_ten_9)
  then show ?case by simp
next
  case (step n)
  have n307: "n \<le> 307" using step.prems by simp
  then have "n \<le> 308" by simp
  with step.IH obtain p where p: "power_of_ten n = Finite p" and p1: "1 \<le> p"
    and hi: "p \<le> 10 ^ n * (1 + 1 / 2 ^ 53) ^ (n - 9)"
    by blast
  have q1: "1 \<le> p * 10" using p1 by simp
  have s: "power_of_ten (Suc n) = round64 (p * 10)"
    using step.hyps(1) by (simp add: power_of_ten_Suc p)
  have "p * 10 \<le> 10 ^ n * (1 + 1 / 2 ^ 53) ^ (n - 9) * 10"
    using hi by (rule mult_right_mono) simp
  also have "\<dots> \<le> 3 * 2 ^ 1022"
    using n307 by (rule power_of_ten_growth) (rule refl)
  finally have "rne (p * 10) \<le> rne (3 * 2 ^ 1022)"
    by (rule rne_mono)
  then have "rne (p * 10) \<le> 3 * 2 ^ 1022"
    unfolding rne_3_1022 .
  moreover have "(3 :: rat) * 2 ^ 1022 < 2 ^ 1024" by simp
  ultimately have "rne (p * 10) < 2 ^ 1024" by (rule le_less_trans)
  then have f: "power_of_ten (Suc n) = Finite (rne (p * 10))"
    by (simp add: s round64_ge_1 [OF q1])
  have "power_of_ten (Suc n) \<noteq> PInf" using f by simp
  then show ?case
    using power_of_ten_range [of "Suc n"] step.hyps(1) by auto
qed

lemma power_of_ten_finite:
  assumes "n \<le> 308"
  shows "\<exists>p. power_of_ten n = Finite p \<and> 1 \<le> p"
proof (cases "n < 9")
  case True
  then show ?thesis by (simp add: power_of_ten_def)
next
  case False
  then have "9 \<le> n" by simp
  then show ?thesis using power_of_ten_finite_ge9 [OF _ assms] by blast
qed

text \<open>
  With 309 decimals or more the scaling factor is infinite and every rounded value is
  NaN.
\<close>

lemma np_round_nan:
  assumes "309 \<le> \<bar>decimals\<bar>"
  shows "np_round decimals x = NaN"
proof (cases "0 \<le> decimals")
  case True
  then have "309 \<le> nat decimals" using assms by simp
  then have f: "power_of_ten (nat decimals) = PInf" by (rule power_of_ten_inf)
  have "fdiv (frint (fmul x PInf)) PInf = NaN"
    by (cases x) simp_all
  then show ?thesis using True assms by (simp add: np_round_def f)
next
  case False
  then have "309 \<le> nat (- decimals)" using assms by simp
  then have f: "power_of_ten (nat (- decimals)) = PInf" by (rule power_of_ten_inf)
  have "fmul (frint (fdiv x PInf)) PInf = NaN"
    by (cases x) simp_all
  then show ?thesis using False by (simp add: np_round_def f)
qed

lemma check_regular_series_excess_decimals:
  assumes "309 \<le> \<bar>tolerance_decimals\<bar>"
  shows "check_regular_series series tolerance_decimals \<longleftrightarrow> 2 \<le> length series"
proof -
  let ?D = "map (np_round tolerance_decimals) (np_diff series)"
  have n: "\<forall>a \<in> set ?D. a = NaN"
    by (simp add: np_round_nan [OF assms])
  have "check_regular_series series tolerance_decimals \<longleftrightarrow>
      ?D \<noteq> [] \<and> (\<forall>a \<in> set ?D. \<forall>b \<in> set ?D. a = b)"
    unfolding check_regular_series_def Let_def by (rule length_np_unique_one)
  also have "(\<forall>a \<in> set ?D. \<forall>b \<in> set ?D. a = b) \<longleftrightarrow> True"
    using n by simp
  also have "?D \<noteq> [] \<longleftrightarrow> 2 \<le> length series"
    using length_np_diff [of series] by (auto simp flip: length_0_conv)
  finally show ?thesis by simp
qed

subsection \<open>The regularity check\<close>




text \<open>
  C10. For every series of fewer than two elements, \<^verbatim>\<open>check_regular_series\<close> returns
  \<^verbatim>\<open>False\<close>.
\<close>

theorem check_regular_series_short:
  "length series < 2 \<Longrightarrow> \<not> check_regular_series series tolerance_decimals"
  by (simp add: check_regular_series_def np_diff_short np_unique_def np_sort_def)

theorem check_regular_series_short_witness:
  "\<not> check_regular_series [] 9 \<and> \<not> check_regular_series [Finite 5] 9"
  using check_regular_series_short [of "[]" 9] check_regular_series_short [of "[Finite 5]" 9]
  by simp

subsection \<open>The ascending check\<close>

text \<open>
  C9. The prefix that \<^verbatim>\<open>is_ascending_series\<close> considers is the first \<^verbatim>\<open>nelems\<close>
  elements when \<^verbatim>\<open>nelems\<close> is a count, and the whole series when it is unset: with a
  count, the result is the result for \<open>take nelems series\<close> with \<^verbatim>\<open>nelems\<close> unset. On
  what it considers, the function returns \<^verbatim>\<open>True\<close> only when each element is strictly
  less than its successor, and it does return \<^verbatim>\<open>True\<close> then for binary64 numbers; two
  equal adjacent elements make it return \<^verbatim>\<open>False\<close>.
\<close>

theorem is_ascending_series_strict:
  "(0 \<le> n \<longrightarrow>
      is_ascending_series series (Some n) = is_ascending_series (take (nat n) series) None)
   \<and> (is_ascending_series series None \<longrightarrow>
        (\<forall>i. Suc i < length series \<longrightarrow> flt (series ! i) (series ! Suc i)))
   \<and> ((\<forall>x \<in> set series. is_float64 x) \<and>
        (\<forall>i. Suc i < length series \<longrightarrow> flt (series ! i) (series ! Suc i)) \<longrightarrow>
        is_ascending_series series None)
   \<and> ((\<exists>i. Suc i < length series \<and> series ! i = series ! Suc i) \<longrightarrow>
        \<not> is_ascending_series series None)"
proof -
  have a: "0 \<le> n \<longrightarrow>
      is_ascending_series series (Some n) = is_ascending_series (take (nat n) series) None"
    by (simp add: is_ascending_series_def slice_to_def)
  have b: "is_ascending_series series None \<longrightarrow>
      (\<forall>i. Suc i < length series \<longrightarrow> flt (series ! i) (series ! Suc i))"
    unfolding is_ascending_series_None using flt_fsub_imp by blast
  have c: "(\<forall>x \<in> set series. is_float64 x) \<and>
      (\<forall>i. Suc i < length series \<longrightarrow> flt (series ! i) (series ! Suc i)) \<longrightarrow>
      is_ascending_series series None"
  proof
    assume h: "(\<forall>x \<in> set series. is_float64 x) \<and>
      (\<forall>i. Suc i < length series \<longrightarrow> flt (series ! i) (series ! Suc i))"
    have "flt (Finite 0) (fsub (series ! Suc i) (series ! i))" if "Suc i < length series" for i
    proof (rule flt_fsub)
      show "is_float64 (series ! i)" using h that by simp
      show "is_float64 (series ! Suc i)" using h that by simp
      show "flt (series ! i) (series ! Suc i)" using h that by simp
    qed
    then show "is_ascending_series series None"
      unfolding is_ascending_series_None by simp
  qed
  have d: "(\<exists>i. Suc i < length series \<and> series ! i = series ! Suc i) \<longrightarrow>
      \<not> is_ascending_series series None"
    using b flt_irrefl by metis
  show ?thesis using a b c d by (intro conjI)
qed

theorem is_ascending_series_strict_witness:
  "\<not> is_ascending_series [Finite 1, Finite 1] None
   \<and> is_ascending_series [Finite 1, Finite 2, Finite 3] None
   \<and> is_ascending_series [Finite 1, Finite 2, Finite 2] (Some 2)
   \<and> \<not> is_ascending_series [Finite 1, Finite 2, Finite 2] (Some 3)
   \<and> \<not> is_ascending_series [Finite 3, Finite 2, Finite 1] (Some 3)"
proof -
  have e1: "\<exists>i. Suc i < length [Finite 1, Finite 1] \<and>
      [Finite 1, Finite 1] ! i = [Finite 1, Finite 1] ! Suc i"
    by (rule exI [of _ 0]) simp
  have a: "\<not> is_ascending_series [Finite 1, Finite 1] None"
    using is_ascending_series_strict [where series = "[Finite 1, Finite 1]" and n = 0] e1
    by blast
  have fl: "\<forall>x \<in> set [Finite 1, Finite 2, Finite 3]. is_float64 x"
    by (simp add: is_float64_def round64_1 round64_2 round64_3)
  have up: "\<forall>i. Suc i < length [Finite 1, Finite 2, Finite 3] \<longrightarrow>
      flt ([Finite 1, Finite 2, Finite 3] ! i) ([Finite 1, Finite 2, Finite 3] ! Suc i)"
    by (auto simp: less_Suc_eq nth_Cons')
  have b: "is_ascending_series [Finite 1, Finite 2, Finite 3] None"
    using is_ascending_series_strict
      [where series = "[Finite 1, Finite 2, Finite 3]" and n = 0] fl up
    by blast
  have fl2: "\<forall>x \<in> set [Finite 1, Finite 2]. is_float64 x"
    by (simp add: is_float64_def round64_1 round64_2)
  have up2: "\<forall>i. Suc i < length [Finite 1, Finite 2] \<longrightarrow>
      flt ([Finite 1, Finite 2] ! i) ([Finite 1, Finite 2] ! Suc i)"
    by (auto simp: less_Suc_eq nth_Cons')
  have c0: "is_ascending_series [Finite 1, Finite 2] None"
    using is_ascending_series_strict [where series = "[Finite 1, Finite 2]" and n = 0] fl2 up2
    by blast
  have t2: "take (nat 2) [Finite 1, Finite 2, Finite 2] = [Finite 1, Finite 2]"
    by simp
  have "is_ascending_series [Finite 1, Finite 2, Finite 2] (Some 2) =
      is_ascending_series (take (nat 2) [Finite 1, Finite 2, Finite 2]) None"
    using is_ascending_series_strict
      [where series = "[Finite 1, Finite 2, Finite 2]" and n = 2, THEN conjunct1]
    by simp
  then have c: "is_ascending_series [Finite 1, Finite 2, Finite 2] (Some 2)"
    unfolding t2 using c0 by simp
  have e2: "\<exists>i. Suc i < length [Finite 1, Finite 2, Finite 2] \<and>
      [Finite 1, Finite 2, Finite 2] ! i = [Finite 1, Finite 2, Finite 2] ! Suc i"
    by (rule exI [of _ 1]) simp
  have d0: "\<not> is_ascending_series [Finite 1, Finite 2, Finite 2] None"
    using is_ascending_series_strict
      [where series = "[Finite 1, Finite 2, Finite 2]" and n = 0] e2
    by blast
  have t3: "take (nat 3) [x, y, z] = [x, y, z]" for x y z :: float64
    by simp
  have "is_ascending_series [Finite 1, Finite 2, Finite 2] (Some 3) =
      is_ascending_series (take (nat 3) [Finite 1, Finite 2, Finite 2]) None"
    using is_ascending_series_strict
      [where series = "[Finite 1, Finite 2, Finite 2]" and n = 3, THEN conjunct1]
    by simp
  then have d: "\<not> is_ascending_series [Finite 1, Finite 2, Finite 2] (Some 3)"
    unfolding t3 using d0 by simp
  have "is_ascending_series [Finite 3, Finite 2, Finite 1] None \<longrightarrow>
      (\<forall>i. Suc i < length [Finite 3, Finite 2, Finite 1] \<longrightarrow>
         flt ([Finite 3, Finite 2, Finite 1] ! i) ([Finite 3, Finite 2, Finite 1] ! Suc i))"
    by (rule is_ascending_series_strict
      [where series = "[Finite 3, Finite 2, Finite 1]" and n = 0,
        THEN conjunct2, THEN conjunct1])
  moreover have "Suc 0 < length [Finite 3, Finite 2, Finite 1]"
    by simp
  moreover have "\<not> flt ([Finite 3, Finite 2, Finite 1] ! 0) ([Finite 3, Finite 2, Finite 1] ! Suc 0)"
    by simp
  ultimately have e0: "\<not> is_ascending_series [Finite 3, Finite 2, Finite 1] None"
    by blast
  have "is_ascending_series [Finite 3, Finite 2, Finite 1] (Some 3) =
      is_ascending_series (take (nat 3) [Finite 3, Finite 2, Finite 1]) None"
    using is_ascending_series_strict
      [where series = "[Finite 3, Finite 2, Finite 1]" and n = 3, THEN conjunct1]
    by simp
  then have e: "\<not> is_ascending_series [Finite 3, Finite 2, Finite 1] (Some 3)"
    unfolding t3 using e0 by simp
  show ?thesis using a b c d e by (intro conjI)
qed

end
